theory Spec2Isabelle
  imports Complex_Main
begin

section \<open>The chess.js boundary\<close>

text \<open>
  The rules library (chess.js) is not part of the repository.  Everything the timeline and
  the game reviewer ask of it goes through a record of functions: the side to move of a FEN,
  the legal moves of a FEN, applying one move to a FEN (\<open>None\<close> when the library throws
  for an illegal move), whether the \<open>Chess\<close> constructor accepts a FEN, and parsing a PGN
  (\<open>None\<close> when \<open>loadPgn\<close> throws).
\<close>

datatype color = White | Black

record Move =
  move_from :: string
  move_to :: string
  san :: string
  after :: string

type_synonym PGNMetadata = "(string \<times> string) list"

record chess =
  chess_turn :: "string \<Rightarrow> color"
  chess_moves :: "string \<Rightarrow> Move list"
  chess_move :: "string \<Rightarrow> string \<Rightarrow> string \<Rightarrow> string option \<Rightarrow> (string \<times> Move) option"
  chess_accepts :: "string \<Rightarrow> bool"
  chess_loadPgn :: "string \<Rightarrow> (Move list \<times> PGNMetadata) option"

datatype error =
    InvalidFEN
  | InvalidPGN
  | TypeError
  | IllegalMove
  | EmptyTimeline
  | AlreadyInProgress
  | AlreadyCompleted
  | StockfishEvaluationFailed
  | NoContinuationFound
  | FetchFailed

section \<open>board.ts\<close>

text \<open>
  The private members \<open>_position\<close>, \<open>_main\<close>, \<open>_hypothetical\<close> and
  \<open>_hypotheticalForksFrom\<close> of \<open>BoardTimeline\<close> are the fields \<open>t_position\<close>, \<open>t_main\<close>,
  \<open>t_hypothetical\<close> and \<open>t_hypotheticalForksFrom\<close>; the \<open>from\<close> and \<open>to\<close> of a move are
  \<open>move_from\<close> and \<open>move_to\<close>.  Indices are natural numbers: the source only ever
  decrements a positive index.
\<close>

record TimelinePosition =
  main :: bool
  index :: nat

definition positionsEqual :: "TimelinePosition \<Rightarrow> TimelinePosition \<Rightarrow> bool" where
  "positionsEqual a b = (main a = main b \<and> index a = index b)"

definition INITIAL_BOARD_FEN :: string where
  "INITIAL_BOARD_FEN = ''rnbqkbnr/pppppppp/8/8/8/8/PPPPPPPP/RNBQKBNR w KQkq - 0 1''"

text \<open>Square indices are 0..63 (the precondition of the source); within that range the
  two character codes are those of a file letter and a rank digit.\<close>

definition getCoordsFromIndex :: "nat \<Rightarrow> nat \<times> nat" where
  "getCoordsFromIndex i = (i div 8, i mod 8)"

definition boardIndexToSquare :: "nat \<Rightarrow> string" where
  "boardIndexToSquare i =
     (case getCoordsFromIndex i of
        (row, column) \<Rightarrow> [char_of (97 + int column), char_of (56 - int row)])"

record MoveResult =
  valid :: bool
  newPosition :: TimelinePosition

text \<open>A board state keeps its FEN and the move that led to it.  The piece array and the
  private \<open>Chess\<close> object of the source are functions of the FEN alone.\<close>

record BoardState =
  fen :: string
  move :: "Move option"

definition getTurn :: "chess \<Rightarrow> BoardState \<Rightarrow> color" where
  "getTurn c s = chess_turn c (fen s)"

definition getAllLegalMoves :: "chess \<Rightarrow> BoardState \<Rightarrow> Move list" where
  "getAllLegalMoves c s = chess_moves c (fen s)"

definition fromFEN :: "string \<Rightarrow> BoardState" where
  "fromFEN f = \<lparr>fen = f, move = None\<rparr>"

definition push :: "chess \<Rightarrow> BoardState \<Rightarrow> nat \<Rightarrow> nat \<Rightarrow> string option \<Rightarrow> BoardState option" where
  "push c s fromIndex toIndex promotion =
     (case chess_move c (fen s) (boardIndexToSquare fromIndex) (boardIndexToSquare toIndex) promotion of
        None \<Rightarrow> None
      | Some (f, m) \<Rightarrow> Some \<lparr>fen = f, move = Some m\<rparr>)"

record BoardTimeline =
  t_position :: TimelinePosition
  t_main :: "BoardState list"
  t_hypothetical :: "BoardState list"
  t_hypotheticalForksFrom :: nat

definition BoardTimeline_new :: BoardTimeline where
  "BoardTimeline_new =
     \<lparr>t_position = \<lparr>main = False, index = 0\<rparr>,
      t_main = [],
      t_hypothetical = [fromFEN INITIAL_BOARD_FEN],
      t_hypotheticalForksFrom = 0\<rparr>"

text \<open>\<open>loadFEN\<close> assigns the cursor and the main line before it builds the new board state;
  the \<open>Chess\<close> constructor throws on a FEN it rejects, and the two assignments stay.\<close>

definition loadFEN :: "chess \<Rightarrow> string \<Rightarrow> BoardTimeline \<Rightarrow> (error + unit) \<times> BoardTimeline" where
  "loadFEN c f t =
     (let t1 = t\<lparr>t_position := \<lparr>main = False, index = 0\<rparr>, t_main := []\<rparr>
      in if chess_accepts c f
         then (Inr (), t1\<lparr>t_hypothetical := [fromFEN f], t_hypotheticalForksFrom := 0\<rparr>)
         else (Inl InvalidFEN, t1))"

definition loadPGN :: "chess \<Rightarrow> string \<Rightarrow> BoardTimeline \<Rightarrow> (error + PGNMetadata) \<times> BoardTimeline" where
  "loadPGN c pgn t =
     (case chess_loadPgn c pgn of
        None \<Rightarrow> (Inl InvalidPGN, t)
      | Some (history, header) \<Rightarrow>
          (Inr header,
           t\<lparr>t_position := \<lparr>main = True, index = 0\<rparr>,
             t_hypotheticalForksFrom := 0,
             t_hypothetical := [],
             t_main := fromFEN INITIAL_BOARD_FEN #
                       map (\<lambda>m. \<lparr>fen = after m, move = Some m\<rparr>) history\<rparr>))"

definition getPosition :: "BoardTimeline \<Rightarrow> TimelinePosition" where
  "getPosition t = t_position t"

text \<open>Reading an array out of range gives \<open>undefined\<close> in the source: \<open>None\<close> here.\<close>

definition getBoardState :: "BoardTimeline \<Rightarrow> BoardState option" where
  "getBoardState t =
     (if main (t_position t)
      then (if index (t_position t) < length (t_main t)
            then Some (t_main t ! index (t_position t)) else None)
      else (if index (t_position t) < length (t_hypothetical t)
            then Some (t_hypothetical t ! index (t_position t)) else None))"

text \<open>\<open>makeMove\<close>: calling \<open>push\<close> on \<open>undefined\<close> is a TypeError, before any assignment.
  The test \<open>index === length - 1\<close> is written \<open>index + 1 = length\<close>, and \<open>slice(0, n)\<close> is
  \<open>take n\<close>.\<close>

definition makeMove ::
  "chess \<Rightarrow> nat \<Rightarrow> nat \<Rightarrow> string option \<Rightarrow> BoardTimeline \<Rightarrow> (error + MoveResult) \<times> BoardTimeline" where
  "makeMove c fromIndex toIndex promotion t =
     (case getBoardState t of
        None \<Rightarrow> (Inl TypeError, t)
      | Some cur \<Rightarrow>
         (case push c cur fromIndex toIndex promotion of
            None \<Rightarrow> (Inr \<lparr>valid = False, newPosition = getPosition t\<rparr>, t)
          | Some nextState \<Rightarrow>
             (if main (t_position t)
              then (let t' = t\<lparr>t_hypotheticalForksFrom := index (t_position t),
                                t_hypothetical := [nextState],
                                t_position := \<lparr>main = False, index = 0\<rparr>\<rparr>
                    in (Inr \<lparr>valid = True, newPosition = getPosition t'\<rparr>, t'))
              else (let h = (if index (t_position t) + 1 = length (t_hypothetical t)
                             then t_hypothetical t @ [nextState]
                             else take (index (t_position t) + 1) (t_hypothetical t) @ [nextState]);
                        t' = t\<lparr>t_hypothetical := h,
                                t_position := (t_position t)\<lparr>index := index (t_position t) + 1\<rparr>\<rparr>
                    in (Inr \<lparr>valid = True, newPosition = getPosition t'\<rparr>, t')))))"

definition previous :: "BoardTimeline \<Rightarrow> TimelinePosition \<times> BoardTimeline" where
  "previous t =
     (let t' =
        (if main (t_position t)
         then (if index (t_position t) > 0
               then t\<lparr>t_position := (t_position t)\<lparr>index := index (t_position t) - 1\<rparr>\<rparr>
               else t)
         else (if index (t_position t) > 0
               then t\<lparr>t_position := (t_position t)\<lparr>index := index (t_position t) - 1\<rparr>\<rparr>
               else if length (t_main t) > 0
               then t\<lparr>t_position := \<lparr>main = True, index = t_hypotheticalForksFrom t\<rparr>,
                      t_hypothetical := []\<rparr>
               else t))
      in (getPosition t', t'))"

text \<open>\<open>length - 1\<close> is \<open>-1\<close> on an empty array in the source, so the comparison is written
  without the subtraction.\<close>

definition "next" :: "BoardTimeline \<Rightarrow> TimelinePosition \<times> BoardTimeline" where
  "next t =
     (let t' =
        (if main (t_position t)
         then (if index (t_position t) + 1 < length (t_main t)
               then t\<lparr>t_position := (t_position t)\<lparr>index := index (t_position t) + 1\<rparr>\<rparr>
               else t)
         else (if index (t_position t) + 1 < length (t_hypothetical t)
               then t\<lparr>t_position := (t_position t)\<lparr>index := index (t_position t) + 1\<rparr>\<rparr>
               else t))
      in (getPosition t', t'))"

text \<open>
  \<open>jumpToStart\<close> and \<open>jumpToEnd\<close> are the source's loops: step, compare the cursor with
  the one remembered before the step, stop when they are equal.  The argument \<open>lastp\<close> is the
  loop's local variable \<open>last\<close>.
\<close>

definition start_measure :: "TimelinePosition \<times> BoardTimeline \<Rightarrow> nat" where
  "start_measure = (\<lambda>(lastp, t).
     2 * (if main (t_position t) then index (t_position t)
          else index (t_position t) + t_hypotheticalForksFrom t + 1)
     + (if positionsEqual lastp (getPosition t) then 0 else 1))"

function jumpToStart_loop :: "TimelinePosition \<Rightarrow> BoardTimeline \<Rightarrow> BoardTimeline" where
  "jumpToStart_loop lastp t =
     (let t' = snd (previous t)
      in if positionsEqual lastp (getPosition t') then t'
         else jumpToStart_loop (getPosition t') t')"
  by pat_completeness auto
termination
  by (relation "measure start_measure")
     (auto simp: start_measure_def previous_def positionsEqual_def getPosition_def Let_def
           split: if_splits)

declare jumpToStart_loop.simps [simp del]

definition jumpToStart :: "BoardTimeline \<Rightarrow> TimelinePosition \<times> BoardTimeline" where
  "jumpToStart t = (let t' = jumpToStart_loop (getPosition t) t in (getPosition t', t'))"

definition end_measure :: "TimelinePosition \<times> BoardTimeline \<Rightarrow> nat" where
  "end_measure = (\<lambda>(lastp, t).
     2 * (if main (t_position t) then length (t_main t) - index (t_position t)
          else length (t_hypothetical t) - index (t_position t))
     + (if positionsEqual lastp (getPosition t) then 0 else 1))"

function jumpToEnd_loop :: "TimelinePosition \<Rightarrow> BoardTimeline \<Rightarrow> BoardTimeline" where
  "jumpToEnd_loop lastp t =
     (let t' = snd (next t)
      in if positionsEqual lastp (getPosition t') then t'
         else jumpToEnd_loop (getPosition t') t')"
  by pat_completeness auto
termination
  by (relation "measure end_measure")
     (auto simp: end_measure_def next_def positionsEqual_def getPosition_def Let_def
           split: if_splits)

declare jumpToEnd_loop.simps [simp del]

definition jumpToEnd :: "BoardTimeline \<Rightarrow> TimelinePosition \<times> BoardTimeline" where
  "jumpToEnd t = (let t' = jumpToEnd_loop (getPosition t) t in (getPosition t', t'))"

text \<open>The public operations of the timeline, and the state after a sequence of them.
  An operation that throws leaves the object in the state it had reached.\<close>

datatype timeline_op =
    LoadPGN string
  | LoadFEN string
  | MakeMove nat nat "string option"
  | Previous
  | Next
  | JumpToStart
  | JumpToEnd

fun apply_op :: "chess \<Rightarrow> BoardTimeline \<Rightarrow> timeline_op \<Rightarrow> BoardTimeline" where
  "apply_op c t (LoadPGN pgn) = snd (loadPGN c pgn t)"
| "apply_op c t (LoadFEN f) = snd (loadFEN c f t)"
| "apply_op c t (MakeMove a b p) = snd (makeMove c a b p t)"
| "apply_op c t Previous = snd (previous t)"
| "apply_op c t Next = snd (next t)"
| "apply_op c t JumpToStart = snd (jumpToStart t)"
| "apply_op c t JumpToEnd = snd (jumpToEnd t)"

definition run :: "chess \<Rightarrow> timeline_op list \<Rightarrow> BoardTimeline" where
  "run c ops = foldl (apply_op c) BoardTimeline_new ops"

section \<open>stockfish.ts\<close>

text \<open>
  The engine wrapper is reached through one call, \<open>getEvaluationToDepth(fen, depth)\<close>.  It
  is a parameter of the game reviewer here, of type \<open>string \<Rightarrow> nat \<Rightarrow> error + StockfishEval\<close>:
  \<open>Inl\<close> when the call throws.  Its polling of the engine process lies behind that call and
  is not modelled.  Scores are whole centipawns and whole move counts.
\<close>

datatype Outcome = WhiteWin | BlackWin | Draw

datatype EvaluationScore = CentipawnAdvantage int | Mate int

record Continuation =
  continuation :: "string list"
  score :: EvaluationScore

record StockfishEval =
  eval_depth :: nat
  n_nodes :: nat
  continuations :: "Continuation list"
  outcome :: "Outcome option"

definition outcomeScores :: "Outcome \<Rightarrow> int" where
  "outcomeScores oc = (case oc of Draw \<Rightarrow> 0 | WhiteWin \<Rightarrow> 1000 | BlackWin \<Rightarrow> - 1000)"

text \<open>The final \<open>throw new Error("No score found.")\<close> of the source is unreachable for a
  score of the declared union type.\<close>

definition evalAsAbsoluteScore :: "StockfishEval \<Rightarrow> error + int" where
  "evalAsAbsoluteScore sfEval =
     (case outcome sfEval of
        Some oc \<Rightarrow> Inr (outcomeScores oc)
      | None \<Rightarrow>
         (case continuations sfEval of
            [] \<Rightarrow> Inl NoContinuationFound
          | c # _ \<Rightarrow>
             (case score c of
                Mate m \<Rightarrow> Inr (if m < 0 then - 1000 else 1000)
              | CentipawnAdvantage cp \<Rightarrow> Inr cp)))"

definition getBestMove :: "StockfishEval \<Rightarrow> string option" where
  "getBestMove sfEval =
     (case continuations sfEval of
        [] \<Rightarrow> None
      | c # _ \<Rightarrow> (case continuation c of [] \<Rightarrow> None | m # _ \<Rightarrow> Some m))"

section \<open>game_review.ts\<close>

datatype MoveFeedback = Book | Brilliant | Best | Miss | Good | Dubious | Blunder

definition GOOD_CP_LOSS_THRESHOLD :: int where
  "GOOD_CP_LOSS_THRESHOLD = 50"

definition BLUNDER_CP_LOSS_THRESHOLD :: int where
  "BLUNDER_CP_LOSS_THRESHOLD = 200"

definition isPositiveFeedback :: "MoveFeedback \<Rightarrow> bool" where
  "isPositiveFeedback f = (f = Book \<or> f = Brilliant \<or> f = Best \<or> f = Good)"

record Annotation =
  feedback :: MoveFeedback
  description :: "string option"
  evaluation :: StockfishEval
  deltaScore :: int
  bestMove :: "string option"

subsection \<open>TimelineAnnotations\<close>

text \<open>The store is the array \<open>_annotations\<close>: one slot per timeline entry, \<open>null\<close> until
  written.\<close>

type_synonym TimelineAnnotations = "Annotation option list"

definition TimelineAnnotations_new :: "BoardState list \<Rightarrow> TimelineAnnotations" where
  "TimelineAnnotations_new timeline = replicate (length timeline) None"

fun numGoodMoves :: "TimelineAnnotations \<Rightarrow> nat \<Rightarrow> nat" where
  "numGoodMoves [] n = n"
| "numGoodMoves (a # rest) n =
     numGoodMoves rest
       (case a of
          Some an \<Rightarrow> (if isPositiveFeedback (feedback an) then n + 1 else n)
        | None \<Rightarrow> n)"

text \<open>A JavaScript quotient of two counts: \<open>0 / 0\<close> is \<open>NaN\<close> (\<open>None\<close> here); otherwise the
  value is the exact quotient below, rounded by the source to the nearest double.\<close>

definition computeAccuracy :: "TimelineAnnotations \<Rightarrow> rat option" where
  "computeAccuracy as =
     (if length as = 0 then None
      else Some (of_nat (numGoodMoves as 0) / of_nat (length as)))"

fun weightedScore :: "TimelineAnnotations \<Rightarrow> rat \<Rightarrow> rat" where
  "weightedScore [] w = w"
| "weightedScore (a # rest) w =
     weightedScore rest
       (case a of
          Some an \<Rightarrow>
            (case feedback an of
               Best \<Rightarrow> w + 1
             | Brilliant \<Rightarrow> w + 1
             | Good \<Rightarrow> w + 1 / 2
             | Dubious \<Rightarrow> w + 1 / 4
             | _ \<Rightarrow> w)
        | None \<Rightarrow> w)"

definition computeWeightedAccuracy :: "TimelineAnnotations \<Rightarrow> rat option" where
  "computeWeightedAccuracy as =
     (if length as = 0 then None
      else Some (weightedScore as 0 / of_nat (length as)))"

fun numMovesOfType_loop :: "TimelineAnnotations \<Rightarrow> MoveFeedback \<Rightarrow> nat \<Rightarrow> nat" where
  "numMovesOfType_loop [] f n = n"
| "numMovesOfType_loop (a # rest) f n =
     numMovesOfType_loop rest f
       (case a of Some an \<Rightarrow> (if feedback an = f then n + 1 else n) | None \<Rightarrow> n)"

definition numMovesOfType :: "TimelineAnnotations \<Rightarrow> MoveFeedback \<Rightarrow> nat" where
  "numMovesOfType as f = numMovesOfType_loop as f 0"

text \<open>Writing past the end of a JavaScript array extends it; the holes read as
  \<open>undefined\<close>, which \<open>getAnnotationAt\<close> turns into \<open>null\<close>.\<close>

definition addAnnotation :: "nat \<Rightarrow> Annotation \<Rightarrow> TimelineAnnotations \<Rightarrow> TimelineAnnotations" where
  "addAnnotation i a as =
     (if i < length as then as[i := Some a]
      else as @ replicate (i - length as) None @ [Some a])"

definition getAnnotationAt :: "TimelineAnnotations \<Rightarrow> nat \<Rightarrow> Annotation option" where
  "getAnnotationAt as i = (if i < length as then as ! i else None)"

subsection \<open>GameReviewer\<close>

text \<open>The private members \<open>_timelineAnnotations\<close>, \<open>_timeline\<close>, \<open>_busy\<close>, \<open>_completed\<close> and
  \<open>_progress\<close> are the fields below; the engine wrapper \<open>_stockfish\<close> holds no state and is
  passed to the operations that call it.  An entry of the array \<open>_getEvaluations\<close> returns
  is an \<open>EvalEntry\<close>.\<close>

record EvalEntry =
  e_eval :: StockfishEval
  e_deltaScore :: int

record GameReviewer =
  r_timelineAnnotations :: TimelineAnnotations
  r_timeline :: "BoardState list"
  r_busy :: bool
  r_completed :: bool
  r_progress :: rat

definition GameReviewer_new :: "BoardState list \<Rightarrow> error + GameReviewer" where
  "GameReviewer_new timeline =
     (if length timeline = 0 then Inl EmptyTimeline
      else Inr \<lparr>r_timelineAnnotations = TimelineAnnotations_new timeline,
                r_timeline = timeline,
                r_busy = False,
                r_completed = False,
                r_progress = 0\<rparr>)"

definition isBusy :: "GameReviewer \<Rightarrow> bool" where
  "isBusy r = r_busy r"

definition isCompleted :: "GameReviewer \<Rightarrow> bool" where
  "isCompleted r = r_completed r"

definition getProgress :: "GameReviewer \<Rightarrow> rat" where
  "getProgress r = r_progress r"

text \<open>The loop of \<open>_getEvaluations\<close>, with its locals \<open>i\<close>, \<open>lastState\<close>, \<open>lastScore\<close> and
  \<open>evaluations\<close> as arguments.  A throw of the engine call is caught and replaced by the
  "Stockfish evaluation failed." error; a throw of \<open>evalAsAbsoluteScore\<close> is not caught.\<close>

function getEvaluations_loop ::
  "chess \<Rightarrow> (string \<Rightarrow> nat \<Rightarrow> error + StockfishEval) \<Rightarrow> nat \<Rightarrow> BoardState \<Rightarrow> int \<Rightarrow>
   EvalEntry list \<Rightarrow> GameReviewer \<Rightarrow> (error + EvalEntry list) \<times> GameReviewer" where
  "getEvaluations_loop c sf i lastState lastScore evaluations r =
     (if i < length (r_timeline r)
      then (let thisState = r_timeline r ! i
            in case sf (fen thisState) 10 of
                 Inl e \<Rightarrow> (Inl StockfishEvaluationFailed, r)
               | Inr sc \<Rightarrow>
                  (case evalAsAbsoluteScore sc of
                     Inl e \<Rightarrow> (Inl e, r)
                   | Inr thisScore \<Rightarrow>
                      (let d = thisScore - lastScore;
                           d' = (if chess_turn c (fen lastState) = Black then - d else d)
                       in getEvaluations_loop c sf (i + 1) thisState thisScore
                            (evaluations @ [\<lparr>e_eval = sc, e_deltaScore = d'\<rparr>])
                            (r\<lparr>r_progress := of_nat (i + 1) / of_nat (length (r_timeline r))\<rparr>))))
      else (Inr evaluations, r))"
  by pat_completeness auto
termination
  by (relation "measure (\<lambda>(c, sf, i, lastState, lastScore, evaluations, r). length (r_timeline r) - i)")
     auto

declare getEvaluations_loop.simps [simp del]

text \<open>\<open>lastState\<close> starts as \<open>_timeline[0]\<close>; the constructor has rejected an empty
  timeline.\<close>

definition getEvaluations ::
  "chess \<Rightarrow> (string \<Rightarrow> nat \<Rightarrow> error + StockfishEval) \<Rightarrow> GameReviewer \<Rightarrow>
   (error + EvalEntry list) \<times> GameReviewer" where
  "getEvaluations c sf r = getEvaluations_loop c sf 0 (r_timeline r ! 0) 0 [] r"

text \<open>String helpers of the loop body: \<open>s.slice(a, b)\<close> for \<open>0 \<le> a \<le> b\<close>, and the
  decimal text JavaScript gives a whole number.\<close>

definition slice :: "nat \<Rightarrow> nat \<Rightarrow> string \<Rightarrow> string" where
  "slice a b s = take (b - a) (drop a s)"

definition digit_char :: "nat \<Rightarrow> char" where
  "digit_char d = char_of (d + 48)"

function string_of_nat :: "nat \<Rightarrow> string" where
  "string_of_nat n =
     (if n div 10 = 0 then [digit_char n]
      else string_of_nat (n div 10) @ [digit_char (n mod 10)])"
  by pat_completeness auto
termination
  by (relation "measure id") auto

declare string_of_nat.simps [simp del]

definition string_of_int :: "int \<Rightarrow> string" where
  "string_of_int k = (if k < 0 then ''-'' @ string_of_nat (nat (- k)) else string_of_nat (nat k))"

text \<open>\<open>continuations[0]\<close>, which is \<open>undefined\<close> on an empty array, and the test
  \<open>"Mate" in score\<close>.  \<open>scoreText\<close> is the text of \<open>score.Mate\<close> inside a string.\<close>

definition firstContinuation :: "StockfishEval \<Rightarrow> Continuation option" where
  "firstContinuation e = (case continuations e of [] \<Rightarrow> None | c # _ \<Rightarrow> Some c)"

definition isMate :: "EvaluationScore \<Rightarrow> bool" where
  "isMate sc = (case sc of Mate m \<Rightarrow> True | CentipawnAdvantage cp \<Rightarrow> False)"

definition scoreText :: "EvaluationScore \<Rightarrow> string" where
  "scoreText sc = (case sc of Mate m \<Rightarrow> string_of_int m | CentipawnAdvantage cp \<Rightarrow> ''undefined'')"

text \<open>
  The body of the annotation loop for index \<open>i\<close>, with \<open>prev = evaluations[i - 1]\<close> and
  \<open>cur = evaluations[i]\<close>.  Reading a property of \<open>undefined\<close> is a TypeError; the
  library's \<open>move\<close> throws for a move it does not accept.  The opening book is an object
  from FEN to name.
\<close>

text \<open>The three tests on the move played: \<open>this._timeline[i]?.move ?? null\<close>;
  \<open>movePlayed && openingBook[movePlayed.after]\<close>, where a name counts when it is a
  non-empty string; and \<open>movePlayed && movePlayed.from + movePlayed.to === bestMove\<close>.\<close>

definition movePlayedAt :: "BoardState list \<Rightarrow> nat \<Rightarrow> Move option" where
  "movePlayedAt timeline i = (if i < length timeline then move (timeline ! i) else None)"

definition bookEntry :: "(string \<rightharpoonup> string) \<Rightarrow> Move option \<Rightarrow> string option" where
  "bookEntry openingBook movePlayed =
     (case movePlayed of
        None \<Rightarrow> None
      | Some m \<Rightarrow>
         (case openingBook (after m) of
            None \<Rightarrow> None
          | Some name \<Rightarrow> (if name = [] then None else Some name)))"

definition matchesBest :: "Move option \<Rightarrow> string \<Rightarrow> bool" where
  "matchesBest movePlayed best =
     (case movePlayed of None \<Rightarrow> False | Some m \<Rightarrow> move_from m @ move_to m = best)"

definition annotate ::
  "chess \<Rightarrow> (string \<rightharpoonup> string) \<Rightarrow> BoardState list \<Rightarrow> EvalEntry \<Rightarrow> EvalEntry \<Rightarrow> nat \<Rightarrow>
   error + Annotation" where
  "annotate c openingBook timeline prev cur i =
     (let sfEval = e_eval cur;
          dScore = e_deltaScore cur;
          movePlayed = movePlayedAt timeline i;
          mk = (\<lambda>fb desc. \<lparr>feedback = fb, description = Some desc, evaluation = sfEval,
                            deltaScore = dScore, bestMove = getBestMove sfEval\<rparr>)
      in case firstContinuation (e_eval prev) of
           None \<Rightarrow> Inl TypeError
         | Some preTop \<Rightarrow>
            (case continuation preTop of
               [] \<Rightarrow> Inl TypeError
             | best # _ \<Rightarrow>
                (if \<not> (i - 1 < length timeline) then Inl TypeError
                 else
                  (case chess_move c (fen (timeline ! (i - 1)))
                          (slice 0 2 best) (slice 2 4 best) (Some (slice 4 5 best)) of
                     None \<Rightarrow> Inl IllegalMove
                   | Some (f, bm) \<Rightarrow>
                      (let bestMoveSan = san bm
                       in case bookEntry openingBook movePlayed of
                            Some name \<Rightarrow> Inr (mk Book (''This move plays the <b>'' @ name @ ''</b>.''))
                          | None \<Rightarrow>
                             (if matchesBest movePlayed best
                              then Inr (mk Best [])
                              else
                               (case (if isMate (score preTop)
                                      then (case firstContinuation sfEval of
                                              None \<Rightarrow> Inl TypeError
                                            | Some postTop \<Rightarrow> Inr (\<not> isMate (score postTop)))
                                      else Inr False) of
                                  Inl e \<Rightarrow> Inl e
                                | Inr True \<Rightarrow> Inr (mk Miss [])
                                | Inr False \<Rightarrow>
                                   (if dScore \<ge> - GOOD_CP_LOSS_THRESHOLD
                                    then Inr (mk Good (''A better move was <b>'' @ bestMoveSan @ ''</b>.''))
                                    else if dScore \<ge> - BLUNDER_CP_LOSS_THRESHOLD
                                    then Inr (mk Dubious (''The best move was <b>'' @ bestMoveSan @ ''</b>.''))
                                    else
                                     (case firstContinuation sfEval of
                                        None \<Rightarrow> Inl TypeError
                                      | Some postTop \<Rightarrow>
                                         Inr (mk Blunder
                                           ((if isMate (score postTop) \<and> \<not> isMate (score preTop)
                                             then ''This move allows a mate in <b>'' @
                                                  scoreText (score postTop) @ ''</b>. ''
                                             else []) @
                                            ''The best move was <b>'' @ bestMoveSan @ ''</b>.'')))))))))))"

text \<open>The annotation loop, \<open>i\<close> from 1 while \<open>i < evaluations.length\<close>.\<close>

function annotations_loop ::
  "chess \<Rightarrow> (string \<rightharpoonup> string) \<Rightarrow> EvalEntry list \<Rightarrow> nat \<Rightarrow> GameReviewer \<Rightarrow>
   (error + unit) \<times> GameReviewer" where
  "annotations_loop c openingBook evaluations i r =
     (if i < length evaluations
      then (case annotate c openingBook (r_timeline r) (evaluations ! (i - 1)) (evaluations ! i) i of
              Inl e \<Rightarrow> (Inl e, r)
            | Inr a \<Rightarrow>
               annotations_loop c openingBook evaluations (i + 1)
                 (r\<lparr>r_timelineAnnotations := addAnnotation i a (r_timelineAnnotations r)\<rparr>))
      else (Inr (), r))"
  by pat_completeness auto
termination
  by (relation "measure (\<lambda>(c, openingBook, evaluations, i, r). length evaluations - i)") auto

declare annotations_loop.simps [simp del]

text \<open>\<open>beginGameReview\<close>.  The engine call and the fetch of the opening book are
  parameters; \<open>fetchBook\<close> is \<open>Inl\<close> when the fetch or its JSON decoding throws.  There is no
  \<open>finally\<close>: a throw leaves the fields as they are at that point.\<close>

definition beginGameReview ::
  "chess \<Rightarrow> (string \<Rightarrow> nat \<Rightarrow> error + StockfishEval) \<Rightarrow> (error + (string \<rightharpoonup> string)) \<Rightarrow>
   GameReviewer \<Rightarrow> (error + unit) \<times> GameReviewer" where
  "beginGameReview c sf fetchBook r =
     (if r_busy r then (Inl AlreadyInProgress, r)
      else if r_completed r then (Inl AlreadyCompleted, r)
      else
       (case getEvaluations c sf (r\<lparr>r_busy := True\<rparr>) of
          (Inl e, r2) \<Rightarrow> (Inl e, r2)
        | (Inr evaluations, r2) \<Rightarrow>
           (case fetchBook of
              Inl e \<Rightarrow> (Inl e, r2)
            | Inr openingBook \<Rightarrow>
               (case annotations_loop c openingBook evaluations 1 r2 of
                  (Inl e, r3) \<Rightarrow> (Inl e, r3)
                | (Inr u, r3) \<Rightarrow> (Inr (), r3\<lparr>r_busy := False, r_completed := True\<rparr>)))))"

definition getAnnotations :: "GameReviewer \<Rightarrow> TimelineAnnotations option" where
  "getAnnotations r = (if \<not> r_completed r then None else Some (r_timelineAnnotations r))"

section \<open>Notions used to state the properties\<close>

text \<open>A forced move, in the words of the specification: the position before it has exactly
  one legal move.\<close>

definition is_forced :: "chess \<Rightarrow> BoardState \<Rightarrow> bool" where
  "is_forced c s = (length (getAllLegalMoves c s) = 1)"

text \<open>Which side a mate score is for, by the sign convention of \<open>evalAsAbsoluteScore\<close>; and the
  Miss rule in the words of the specification: the top line before the move showed a mate,
  and the top line after it shows no mate for that same side.\<close>

definition mate_side :: "int \<Rightarrow> color" where
  "mate_side m = (if m < 0 then Black else White)"

definition shows_mate_for :: "color \<Rightarrow> EvaluationScore \<Rightarrow> bool" where
  "shows_mate_for side sc = (case sc of Mate m \<Rightarrow> mate_side m = side | CentipawnAdvantage cp \<Rightarrow> False)"

definition spec_miss :: "EvaluationScore \<Rightarrow> EvaluationScore \<Rightarrow> bool" where
  "spec_miss pre post =
     (case pre of
        Mate m \<Rightarrow> \<not> shows_mate_for (mate_side m) post
      | CentipawnAdvantage cp \<Rightarrow> False)"

text \<open>The number of annotated moves of a store, and the two ratios in the words of the
  specification: over the annotated moves.\<close>

definition numAnnotated :: "TimelineAnnotations \<Rightarrow> nat" where
  "numAnnotated as = length (filter (\<lambda>a. a \<noteq> None) as)"

definition spec_accuracy :: "TimelineAnnotations \<Rightarrow> rat option" where
  "spec_accuracy as =
     (if numAnnotated as = 0 then None
      else Some (of_nat (numGoodMoves as 0) / of_nat (numAnnotated as)))"

definition spec_weightedAccuracy :: "TimelineAnnotations \<Rightarrow> rat option" where
  "spec_weightedAccuracy as =
     (if numAnnotated as = 0 then None
      else Some (weightedScore as 0 / of_nat (numAnnotated as)))"

text \<open>Two conditions on a timeline.  The weaker one: a cursor on the main line has a
  non-empty main line under it.  The stronger one: on the main line the hypothetical branch
  is empty and the main line holds the cursor, off it the hypothetical branch holds the
  cursor; and the fork index points into the main line when there is one.  The second is
  kept by every operation except a \<open>loadFEN\<close> of a FEN the rules library rejects, which
  \<open>accepted\<close> rules out.\<close>

definition cursor_ok :: "BoardTimeline \<Rightarrow> bool" where
  "cursor_ok t = (if main (t_position t) then t_main t \<noteq> [] else True)"

definition timeline_inv :: "BoardTimeline \<Rightarrow> bool" where
  "timeline_inv t =
     ((if main (t_position t)
       then t_hypothetical t = [] \<and> index (t_position t) < length (t_main t)
       else t_hypothetical t \<noteq> [] \<and> index (t_position t) < length (t_hypothetical t))
      \<and> (t_main t = [] \<or> t_hypotheticalForksFrom t < length (t_main t)))"

fun accepted :: "chess \<Rightarrow> timeline_op \<Rightarrow> bool" where
  "accepted c (LoadFEN f) = chess_accepts c f"
| "accepted c _ = True"

text \<open>What the evaluation loop establishes for entry \<open>j\<close> of its result: the entry holds
  the engine's answer for position \<open>j\<close>, that answer has an absolute score, and for
  \<open>j \<ge> 1\<close> the stored delta is the difference to the previous absolute score, negated when
  black was to move in position \<open>j - 1\<close>.\<close>

definition entry_ok ::
  "chess \<Rightarrow> (string \<Rightarrow> nat \<Rightarrow> error + StockfishEval) \<Rightarrow> BoardState list \<Rightarrow> EvalEntry list \<Rightarrow>
   nat \<Rightarrow> bool" where
  "entry_ok c sf tline xs j =
     (sf (fen (tline ! j)) 10 = Inr (e_eval (xs ! j)) \<and>
      (case evalAsAbsoluteScore (e_eval (xs ! j)) of
         Inl e \<Rightarrow> False
       | Inr a \<Rightarrow>
          (if j = 0 then True
           else (case evalAsAbsoluteScore (e_eval (xs ! (j - 1))) of
                   Inl e \<Rightarrow> False
                 | Inr b \<Rightarrow>
                    e_deltaScore (xs ! j) =
                      (if chess_turn c (fen (tline ! (j - 1))) = Black then - (a - b) else a - b)))))"

text \<open>The engine answers position \<open>j\<close> of the timeline, and the answer has an absolute
  score.\<close>

definition scoreable ::
  "(string \<Rightarrow> nat \<Rightarrow> error + StockfishEval) \<Rightarrow> BoardState list \<Rightarrow> nat \<Rightarrow> bool" where
  "scoreable sf tline j =
     (case sf (fen (tline ! j)) 10 of
        Inl e \<Rightarrow> False
      | Inr ev \<Rightarrow> (case evalAsAbsoluteScore ev of Inl e \<Rightarrow> False | Inr a \<Rightarrow> True))"

section \<open>A small rules table and engine for running the model\<close>

text \<open>
  A stand-in for the rules library over a handful of named positions, each with its legal
  moves listed, and stand-ins for the engine.  They serve to run the model on concrete
  games; no general statement depends on them.
\<close>

definition stub_table :: "(string \<times> Move) list" where
  "stub_table =
     [(INITIAL_BOARD_FEN, \<lparr>move_from = ''e2'', move_to = ''e4'', san = ''e4'', after = ''b:e4''\<rparr>),
      (INITIAL_BOARD_FEN, \<lparr>move_from = ''d2'', move_to = ''d4'', san = ''d4'', after = ''b:d4''\<rparr>),
      (''b:e4'', \<lparr>move_from = ''e7'', move_to = ''e5'', san = ''e5'', after = ''w:e4e5''\<rparr>),
      (''b:e4'', \<lparr>move_from = ''c7'', move_to = ''c5'', san = ''c5'', after = ''w:e4c5''\<rparr>),
      (''w:e4e5'', \<lparr>move_from = ''g1'', move_to = ''f3'', san = ''Nf3'', after = ''b:e4e5Nf3''\<rparr>),
      (''w:e4e5'', \<lparr>move_from = ''d1'', move_to = ''h5'', san = ''Qh5'', after = ''b:e4e5Qh5''\<rparr>),
      (''b:e4e5Nf3'', \<lparr>move_from = ''b8'', move_to = ''c6'', san = ''Nc6'', after = ''w:e4e5Nf3Nc6''\<rparr>),
      (''w:corner'', \<lparr>move_from = ''h1'', move_to = ''g1'', san = ''Kg1'', after = ''b:corner''\<rparr>)]"

definition stub_chess :: chess where
  "stub_chess =
     \<lparr>chess_turn = (\<lambda>f. if take 1 f = ''b'' then Black else White),
      chess_moves = (\<lambda>f. map snd (filter (\<lambda>e. fst e = f) stub_table)),
      chess_move = (\<lambda>f a b p.
         case filter (\<lambda>e. fst e = f \<and> move_from (snd e) = a \<and> move_to (snd e) = b) stub_table of
           [] \<Rightarrow> None
         | e # _ \<Rightarrow> Some (after (snd e), snd e)),
      chess_accepts = (\<lambda>f. f = INITIAL_BOARD_FEN \<or> f \<in> set (map (after \<circ> snd) stub_table)
                           \<or> f \<in> set (map fst stub_table)),
      chess_loadPgn = (\<lambda>pgn.
         if pgn = ''1. e4 e5''
         then Some ([snd (stub_table ! 0), snd (stub_table ! 2)], [(''White'', ''A''), (''Black'', ''B'')])
         else if pgn = ''1. e4 e5 2. Nf3''
         then Some ([snd (stub_table ! 0), snd (stub_table ! 2), snd (stub_table ! 4)], [])
         else if pgn = ''1. e4 e5 2. Nf3 Nc6''
         then Some ([snd (stub_table ! 0), snd (stub_table ! 2), snd (stub_table ! 4),
                     snd (stub_table ! 6)], [])
         else None)\<rparr>"

definition stub_line :: "string \<Rightarrow> int \<Rightarrow> StockfishEval" where
  "stub_line mv cp =
     \<lparr>eval_depth = 10, n_nodes = 1000,
      continuations = [\<lparr>continuation = [mv], score = CentipawnAdvantage cp\<rparr>],
      outcome = None\<rparr>"

definition stub_mate :: "string \<Rightarrow> int \<Rightarrow> StockfishEval" where
  "stub_mate mv m =
     \<lparr>eval_depth = 10, n_nodes = 1000,
      continuations = [\<lparr>continuation = [mv], score = Mate m\<rparr>],
      outcome = None\<rparr>"

definition stub_sf :: "string \<Rightarrow> nat \<Rightarrow> error + StockfishEval" where
  "stub_sf f depth =
     (if f = INITIAL_BOARD_FEN then Inr (stub_line ''e2e4'' 0)
      else if f = ''b:e4'' then Inr (stub_line ''c7c5'' 20)
      else if f = ''w:e4e5'' then Inr (stub_line ''g1f3'' 15)
      else if f = ''w:corner'' then Inr (stub_line ''h1g1'' 0)
      else if f = ''b:corner'' then Inr (stub_line ''a8a7'' (- 500))
      else Inl TypeError)"

definition stub_sf_failing :: "string \<Rightarrow> nat \<Rightarrow> error + StockfishEval" where
  "stub_sf_failing f depth =
     (if f = INITIAL_BOARD_FEN then Inr (stub_line ''e2e4'' 0) else Inl TypeError)"

definition stub_sf_mates :: "string \<Rightarrow> nat \<Rightarrow> error + StockfishEval" where
  "stub_sf_mates f depth =
     (if f = INITIAL_BOARD_FEN then Inr (stub_line ''e2e4'' 0)
      else if f = ''b:e4'' then Inr (stub_line ''c7c5'' 20)
      else if f = ''w:e4e5'' then Inr (stub_mate ''d1h5'' 2)
      else if f = ''b:e4e5Nf3'' then Inr (stub_mate ''b8c6'' (- 1))
      else Inl TypeError)"

definition stub_game :: "BoardState list" where
  "stub_game = t_main (run stub_chess [LoadPGN ''1. e4 e5''])"

definition stub_game3 :: "BoardState list" where
  "stub_game3 = t_main (run stub_chess [LoadPGN ''1. e4 e5 2. Nf3''])"

text \<open>Two positions given by FEN alone, as \<open>BoardState.fromFEN\<close> builds them: no move is
  recorded.  The first has exactly one legal move in the table, and the second is the
  position after it.\<close>

definition corner_game :: "BoardState list" where
  "corner_game = [fromFEN ''w:corner'', fromFEN ''b:corner'']"

text \<open>A game reviewer as the constructor leaves it.\<close>

definition fresh_reviewer :: "BoardState list \<Rightarrow> GameReviewer" where
  "fresh_reviewer timeline =
     \<lparr>r_timelineAnnotations = TimelineAnnotations_new timeline,
      r_timeline = timeline,
      r_busy = False,
      r_completed = False,
      r_progress = 0\<rparr>"

text \<open>An engine that shows a mate for white before the third move of the three-move game
  and no mate after it.\<close>

definition stub_sf_missed :: "string \<Rightarrow> nat \<Rightarrow> error + StockfishEval" where
  "stub_sf_missed f depth =
     (if f = INITIAL_BOARD_FEN then Inr (stub_line ''e2e4'' 0)
      else if f = ''b:e4'' then Inr (stub_line ''c7c5'' 20)
      else if f = ''w:e4e5'' then Inr (stub_mate ''d1h5'' 2)
      else if f = ''b:e4e5Nf3'' then Inr (stub_line ''b8c6'' 30)
      else Inl TypeError)"




section \<open>Timeline: single steps\<close>

lemma previous_cases:
  "snd (previous t) =
     (if index (t_position t) > 0
      then t\<lparr>t_position := (t_position t)\<lparr>index := index (t_position t) - 1\<rparr>\<rparr>
      else if \<not> main (t_position t) \<and> t_main t \<noteq> []
      then t\<lparr>t_position := \<lparr>main = True, index = t_hypotheticalForksFrom t\<rparr>, t_hypothetical := []\<rparr>
      else t)"
  by (simp add: previous_def Let_def)

lemma previous_fst: "fst (previous t) = t_position (snd (previous t))"
  by (simp add: previous_def Let_def getPosition_def)

lemma next_cases:
  "snd (next t) =
     (if index (t_position t) + 1 <
           length (if main (t_position t) then t_main t else t_hypothetical t)
      then t\<lparr>t_position := (t_position t)\<lparr>index := index (t_position t) + 1\<rparr>\<rparr>
      else t)"
  by (simp add: next_def Let_def)

section \<open>Timeline: the jump loops\<close>

lemma jumpToStart_loop_fixed:
  assumes "index (t_position t) = 0" "main (t_position t) \<or> t_main t = []"
  shows "jumpToStart_loop (getPosition t) t = t"
  using assms
  by (subst jumpToStart_loop.simps)
     (auto simp: previous_cases positionsEqual_def getPosition_def Let_def)

lemma jumpToStart_loop_result:
  "lastp = getPosition t \<Longrightarrow> cursor_ok t \<Longrightarrow>
   jumpToStart_loop lastp t =
     t\<lparr>t_position := \<lparr>main = (t_main t \<noteq> []), index = 0\<rparr>,
       t_hypothetical := (if main (t_position t) \<or> t_main t = [] then t_hypothetical t else [])\<rparr>"
proof (induction lastp t rule: jumpToStart_loop.induct)
  case (1 lastp t)
  let ?t' = "snd (previous t)"
  have lp: "lastp = t_position t" using "1.prems"(1) by (simp add: getPosition_def)
  have ck: "main (t_position t) \<longrightarrow> t_main t \<noteq> []" using "1.prems"(2) by (simp add: cursor_ok_def)
  show ?case
  proof (cases "positionsEqual lastp (getPosition ?t')")
    case True
    then have r: "jumpToStart_loop lastp t = ?t'"
      by (subst jumpToStart_loop.simps) (simp add: Let_def)
    from True have "positionsEqual (t_position t) (t_position ?t')"
      unfolding lp getPosition_def .
    then have z: "index (t_position t) = 0 \<and> (main (t_position t) \<or> t_main t = [])"
      unfolding previous_cases positionsEqual_def by (simp split: if_splits)
    then have tt: "?t' = t" unfolding previous_cases by auto
    have pp: "t_position t = \<lparr>main = (t_main t \<noteq> []), index = 0\<rparr>"
      using z ck by (cases "t_position t") auto
    have "t = t\<lparr>t_position := \<lparr>main = (t_main t \<noteq> []), index = 0\<rparr>,
       t_hypothetical := (if main (t_position t) \<or> t_main t = [] then t_hypothetical t else [])\<rparr>"
      using z by (subst pp[symmetric]) simp
    then show ?thesis unfolding r tt .
  next
    case False
    then have eq: "jumpToStart_loop lastp t = jumpToStart_loop (getPosition ?t') ?t'"
      by (subst jumpToStart_loop.simps) (simp add: Let_def)
    have ok: "cursor_ok ?t'" using ck
      unfolding previous_cases cursor_ok_def by simp
    have ih: "jumpToStart_loop (getPosition ?t') ?t' =
       ?t'\<lparr>t_position := \<lparr>main = (t_main ?t' \<noteq> []), index = 0\<rparr>,
       t_hypothetical := (if main (t_position ?t') \<or> t_main ?t' = [] then t_hypothetical ?t' else [])\<rparr>"
      using "1.IH"[OF refl False refl ok] .
    show ?thesis
      apply (simp only: eq ih)
      using ck by (auto simp: previous_cases)
  qed
qed

lemma jumpToEnd_loop_preserves:
  assumes step: "\<And>t. P t \<Longrightarrow> P (snd (next t))"
  shows "P t \<Longrightarrow> P (jumpToEnd_loop lastp t)"
proof (induction lastp t rule: jumpToEnd_loop.induct)
  case (1 lastp t)
  have n: "P (snd (next t))" using "1.prems" by (rule step)
  show ?case
  proof (cases "positionsEqual lastp (getPosition (snd (next t)))")
    case True
    then show ?thesis using n by (subst jumpToEnd_loop.simps) (simp add: Let_def)
  next
    case False
    then show ?thesis using "1.IH"[OF refl False n]
      by (subst jumpToEnd_loop.simps) (simp add: Let_def)
  qed
qed

section \<open>Timeline: what every sequence of operations preserves\<close>

lemma ok_new: "cursor_ok BoardTimeline_new"
  by (simp add: cursor_ok_def BoardTimeline_new_def)

lemma ok_next: "cursor_ok t \<Longrightarrow> cursor_ok (snd (next t))"
  by (auto simp: next_cases cursor_ok_def)

lemma ok_apply_op: "cursor_ok t \<Longrightarrow> cursor_ok (apply_op c t op)"
proof (cases op)
  case JumpToStart
  assume "cursor_ok t"
  then show ?thesis using JumpToStart jumpToStart_loop_result[OF refl, of t]
    by (simp add: jumpToStart_def Let_def cursor_ok_def)
next
  case JumpToEnd
  assume "cursor_ok t"
  then have "cursor_ok (jumpToEnd_loop (getPosition t) t)"
    using ok_next jumpToEnd_loop_preserves[of cursor_ok t "getPosition t"] by blast
  then show ?thesis using JumpToEnd by (simp add: jumpToEnd_def Let_def)
qed (auto simp: cursor_ok_def loadPGN_def loadFEN_def makeMove_def previous_cases next_cases Let_def
      getBoardState_def split: option.splits if_splits)

lemma ok_run: "cursor_ok (run c ops)"
  unfolding run_def
  by (induction ops rule: rev_induct) (simp_all add: ok_apply_op ok_new)

lemma inv_new: "timeline_inv BoardTimeline_new"
  by (simp add: timeline_inv_def BoardTimeline_new_def)

lemma inv_cursor_ok: "timeline_inv t \<Longrightarrow> cursor_ok t"
  by (auto simp: timeline_inv_def cursor_ok_def split: if_splits)

lemma inv_loadPGN: "timeline_inv t \<Longrightarrow> timeline_inv (snd (loadPGN c p t))"
  by (simp add: loadPGN_def timeline_inv_def split: option.splits prod.splits)

lemma inv_loadFEN: "chess_accepts c f \<Longrightarrow> timeline_inv (snd (loadFEN c f t))"
  by (simp add: loadFEN_def timeline_inv_def Let_def)

lemma inv_makeMove: "timeline_inv t \<Longrightarrow> timeline_inv (snd (makeMove c a b p t))"
  by (auto simp: makeMove_def timeline_inv_def Let_def getBoardState_def getPosition_def
           split: option.splits if_splits)

lemma inv_previous: "timeline_inv t \<Longrightarrow> timeline_inv (snd (previous t))"
  by (auto simp: previous_cases timeline_inv_def split: if_splits)

lemma inv_next: "timeline_inv t \<Longrightarrow> timeline_inv (snd (next t))"
  by (auto simp: next_cases timeline_inv_def split: if_splits)

lemma inv_jumpToStart: "timeline_inv t \<Longrightarrow> timeline_inv (snd (jumpToStart t))"
  using jumpToStart_loop_result[OF refl inv_cursor_ok, of t]
  by (auto simp: jumpToStart_def Let_def timeline_inv_def split: if_splits)

lemma inv_jumpToEnd: "timeline_inv t \<Longrightarrow> timeline_inv (snd (jumpToEnd t))"
  using inv_next jumpToEnd_loop_preserves[of timeline_inv t "getPosition t"]
  by (simp add: jumpToEnd_def Let_def)

lemma inv_apply_op: "timeline_inv t \<Longrightarrow> accepted c op \<Longrightarrow> timeline_inv (apply_op c t op)"
  by (cases op) (simp_all add: inv_loadPGN inv_loadFEN inv_makeMove inv_previous inv_next
       inv_jumpToStart inv_jumpToEnd)

lemma inv_run: "\<forall>op\<in>set ops. accepted c op \<Longrightarrow> timeline_inv (run c ops)"
  unfolding run_def
  by (induction ops rule: rev_induct) (simp_all add: inv_new inv_apply_op)

section \<open>Timeline: the stated properties\<close>

text \<open>
  C4, as the code has it.  After any sequence of public operations, \<open>jumpToStart\<close> (stepping
  backward until the cursor stops changing) leaves the cursor at \<open>{main: false, index: 0}\<close>
  when the main line is empty and at \<open>{main: true, index: 0}\<close>, the start of the main line,
  when it is not; a hypothetical branch that forked from a main line is discarded on the
  way, the main line is untouched; it returns that cursor, and a second \<open>jumpToStart\<close>
  changes nothing.
\<close>

theorem jumpToStart_fixed_point:
  "t_position (snd (jumpToStart (run c ops))) =
      \<lparr>main = (t_main (run c ops) \<noteq> []), index = 0\<rparr>
   \<and> t_hypothetical (snd (jumpToStart (run c ops))) =
      (if main (t_position (run c ops)) \<or> t_main (run c ops) = []
       then t_hypothetical (run c ops) else [])
   \<and> t_main (snd (jumpToStart (run c ops))) = t_main (run c ops)
   \<and> fst (jumpToStart (run c ops)) = t_position (snd (jumpToStart (run c ops)))
   \<and> snd (jumpToStart (snd (jumpToStart (run c ops)))) = snd (jumpToStart (run c ops))"
proof -
  let ?t = "run c ops"
  let ?r = "?t\<lparr>t_position := \<lparr>main = (t_main ?t \<noteq> []), index = 0\<rparr>,
       t_hypothetical := (if main (t_position ?t) \<or> t_main ?t = [] then t_hypothetical ?t else [])\<rparr>"
  have r: "jumpToStart_loop (getPosition ?t) ?t = ?r"
    by (rule jumpToStart_loop_result[OF refl ok_run])
  have f: "jumpToStart_loop (getPosition ?r) ?r = ?r"
    by (rule jumpToStart_loop_fixed) auto
  show ?thesis
    apply (simp only: jumpToStart_def Let_def r snd_conv fst_conv f)
    by (simp add: getPosition_def)
qed

theorem jumpToStart_fixed_point_witness:
  "t_position (snd (jumpToStart (run stub_chess
      [LoadPGN ''1. e4 e5'', Next, Next, MakeMove 62 45 None, MakeMove 1 18 None]))) =
     \<lparr>main = True, index = 0\<rparr>
   \<and> t_position (snd (jumpToStart (run stub_chess [MakeMove 52 36 None, MakeMove 12 28 None]))) =
     \<lparr>main = False, index = 0\<rparr>"
proof -
  have a: "t_main (run stub_chess
      [LoadPGN ''1. e4 e5'', Next, Next, MakeMove 62 45 None, MakeMove 1 18 None]) \<noteq> []"
    by code_simp
  have b: "t_main (run stub_chess [MakeMove 52 36 None, MakeMove 12 28 None]) = []"
    by code_simp
  show ?thesis
    using jumpToStart_fixed_point[of stub_chess
            "[LoadPGN ''1. e4 e5'', Next, Next, MakeMove 62 45 None, MakeMove 1 18 None]"]
          jumpToStart_fixed_point[of stub_chess "[MakeMove 52 36 None, MakeMove 12 28 None]"]
          a b
    by simp
qed

text \<open>
  C4, as stated, fails.  A game of two moves is loaded, the cursor is moved to main index 2,
  a legal move forks a hypothetical branch there (cursor at its root) and a second legal
  move follows.  Stepping backward to the fixed point does not stop at the fork point
  \<open>{main: true, index: 2}\<close>: it goes on to \<open>{main: true, index: 0}\<close>.
\<close>

theorem jumpToStart_fork_counterexample:
  "let t = run stub_chess
             [LoadPGN ''1. e4 e5'', Next, Next, MakeMove 62 45 None, MakeMove 1 18 None]
   in t_main t \<noteq> [] \<and> t_hypotheticalForksFrom t = 2
      \<and> t_position t = \<lparr>main = False, index = 1\<rparr>
      \<and> length (t_hypothetical t) = 2
      \<and> t_position (snd (jumpToStart t)) = \<lparr>main = True, index = 0\<rparr>
      \<and> t_position (snd (jumpToStart t)) \<noteq> \<lparr>main = True, index = t_hypotheticalForksFrom t\<rparr>"
  by code_simp

text \<open>
  C5, as the code has it.  After any sequence of public operations in which every \<open>loadFEN\<close>
  is given a FEN the rules library accepts, the hypothetical branch is non-empty and holds
  the cursor whenever the cursor is off the main line, and it is empty whenever the cursor
  is on the main line.
\<close>

theorem hypothetical_branch_invariant:
  assumes "\<forall>op\<in>set ops. accepted c op"
  shows "(\<not> main (t_position (run c ops)) \<longrightarrow>
            t_hypothetical (run c ops) \<noteq> []
            \<and> index (t_position (run c ops)) < length (t_hypothetical (run c ops)))
       \<and> (main (t_position (run c ops)) \<longrightarrow> t_hypothetical (run c ops) = [])"
  using inv_run[OF assms] by (simp add: timeline_inv_def split: if_splits)

theorem hypothetical_branch_invariant_witness:
  "list_all (accepted stub_chess)
      [LoadPGN ''1. e4 e5'', Next, MakeMove 12 20 None, LoadFEN ''w:corner'', MakeMove 63 62 None]
   \<and> \<not> main (t_position (run stub_chess
        [LoadPGN ''1. e4 e5'', Next, MakeMove 12 20 None, LoadFEN ''w:corner'', MakeMove 63 62 None]))
   \<and> length (t_hypothetical (run stub_chess
        [LoadPGN ''1. e4 e5'', Next, MakeMove 12 20 None, LoadFEN ''w:corner'', MakeMove 63 62 None])) = 2
   \<and> list_all (accepted stub_chess) [LoadPGN ''1. e4 e5'', Next, JumpToEnd]
   \<and> main (t_position (run stub_chess [LoadPGN ''1. e4 e5'', Next, JumpToEnd]))
   \<and> t_hypothetical (run stub_chess [LoadPGN ''1. e4 e5'', Next, JumpToEnd]) = []"
proof -
  have a: "list_all (accepted stub_chess)
      [LoadPGN ''1. e4 e5'', Next, MakeMove 12 20 None, LoadFEN ''w:corner'', MakeMove 63 62 None]"
    by code_simp
  have b: "list_all (accepted stub_chess) [LoadPGN ''1. e4 e5'', Next, JumpToEnd]"
    by simp
  have c: "\<not> main (t_position (run stub_chess
        [LoadPGN ''1. e4 e5'', Next, MakeMove 12 20 None, LoadFEN ''w:corner'', MakeMove 63 62 None]))"
    by code_simp
  have d: "length (t_hypothetical (run stub_chess
        [LoadPGN ''1. e4 e5'', Next, MakeMove 12 20 None, LoadFEN ''w:corner'', MakeMove 63 62 None])) = 2"
    by code_simp
  have e: "main (t_position (run stub_chess [LoadPGN ''1. e4 e5'', Next, JumpToEnd]))"
    by code_simp
  show ?thesis
    using hypothetical_branch_invariant[OF a[unfolded list_all_iff]]
          hypothetical_branch_invariant[OF b[unfolded list_all_iff]] a b c d e
    by blast
qed

text \<open>
  C5, as stated, fails: right after a game is loaded the cursor is on the main line and the
  hypothetical branch has no element.
\<close>

theorem hypothetical_empty_counterexample:
  "\<not> 1 \<le> length (t_hypothetical (run stub_chess [LoadPGN ''1. e4 e5'']))"
  by code_simp

text \<open>
  C6.  A legal \<open>makeMove\<close> (the current board state exists and \<open>push\<close> gives a new state).
  With the cursor on the main line at index \<open>k\<close>: the fork index becomes \<open>k\<close>, the
  hypothetical branch becomes the one new state, the cursor becomes
  \<open>{main: false, index: 0}\<close>.  With the cursor on the hypothetical branch at index \<open>j\<close>: the
  branch becomes its first \<open>j + 1\<close> states followed by the new one, and the cursor index
  becomes \<open>j + 1\<close>.  Both report success with the new cursor and leave the main line alone.
\<close>

theorem makeMove_legal:
  assumes "getBoardState t = Some cur" and "push c cur a b p = Some nextState"
  shows "(main (t_position t) \<longrightarrow>
            makeMove c a b p t =
              (Inr \<lparr>valid = True, newPosition = \<lparr>main = False, index = 0\<rparr>\<rparr>,
               t\<lparr>t_hypotheticalForksFrom := index (t_position t),
                 t_hypothetical := [nextState],
                 t_position := \<lparr>main = False, index = 0\<rparr>\<rparr>))
       \<and> (\<not> main (t_position t) \<longrightarrow>
            makeMove c a b p t =
              (Inr \<lparr>valid = True,
                    newPosition = \<lparr>main = False, index = index (t_position t) + 1\<rparr>\<rparr>,
               t\<lparr>t_hypothetical := take (index (t_position t) + 1) (t_hypothetical t) @ [nextState],
                 t_position := \<lparr>main = False, index = index (t_position t) + 1\<rparr>\<rparr>))"
proof (intro conjI impI)
  assume "main (t_position t)"
  then show "makeMove c a b p t =
              (Inr \<lparr>valid = True, newPosition = \<lparr>main = False, index = 0\<rparr>\<rparr>,
               t\<lparr>t_hypotheticalForksFrom := index (t_position t),
                 t_hypothetical := [nextState],
                 t_position := \<lparr>main = False, index = 0\<rparr>\<rparr>)"
    using assms by (simp add: makeMove_def Let_def getPosition_def)
next
  assume m: "\<not> main (t_position t)"
  then have pos: "(t_position t)\<lparr>index := Suc (index (t_position t))\<rparr> =
                  \<lparr>main = False, index = Suc (index (t_position t))\<rparr>"
    by (cases "t_position t") simp
  from m assms(1) have "index (t_position t) < length (t_hypothetical t)"
    by (simp add: getBoardState_def split: if_splits)
  then show "makeMove c a b p t =
              (Inr \<lparr>valid = True,
                    newPosition = \<lparr>main = False, index = index (t_position t) + 1\<rparr>\<rparr>,
               t\<lparr>t_hypothetical := take (index (t_position t) + 1) (t_hypothetical t) @ [nextState],
                 t_position := \<lparr>main = False, index = index (t_position t) + 1\<rparr>\<rparr>)"
    using assms m pos by (simp add: makeMove_def Let_def getPosition_def)
qed

theorem makeMove_legal_witness:
  "(let t = run stub_chess [LoadPGN ''1. e4 e5'', Next]
    in main (t_position t) \<and> index (t_position t) = 1
       \<and> t_hypotheticalForksFrom (snd (makeMove stub_chess 10 26 None t)) = 1
       \<and> length (t_hypothetical (snd (makeMove stub_chess 10 26 None t))) = 1
       \<and> t_position (snd (makeMove stub_chess 10 26 None t)) = \<lparr>main = False, index = 0\<rparr>)
   \<and> (let t = run stub_chess [MakeMove 52 36 None, MakeMove 12 28 None, MakeMove 62 45 None,
                               Previous, Previous, Previous]
       in \<not> main (t_position t) \<and> index (t_position t) = 0 \<and> length (t_hypothetical t) = 4
          \<and> t_hypothetical (snd (makeMove stub_chess 51 35 None t)) =
              take 1 (t_hypothetical t) @ [\<lparr>fen = ''b:d4'', move = Some (snd (stub_table ! 1))\<rparr>]
          \<and> t_position (snd (makeMove stub_chess 51 35 None t)) = \<lparr>main = False, index = 1\<rparr>)"
proof -
  let ?t1 = "run stub_chess [LoadPGN ''1. e4 e5'', Next]"
  let ?t2 = "run stub_chess [MakeMove 52 36 None, MakeMove 12 28 None, MakeMove 62 45 None,
                               Previous, Previous, Previous]"
  have g1: "getBoardState ?t1 = Some \<lparr>fen = ''b:e4'', move = Some (snd (stub_table ! 0))\<rparr>"
    by code_simp
  have p1: "push stub_chess \<lparr>fen = ''b:e4'', move = Some (snd (stub_table ! 0))\<rparr> 10 26 None =
            Some \<lparr>fen = ''w:e4c5'', move = Some (snd (stub_table ! 3))\<rparr>"
    by code_simp
  have m1: "main (t_position ?t1) \<and> index (t_position ?t1) = 1" by code_simp
  have g2: "getBoardState ?t2 = Some (fromFEN INITIAL_BOARD_FEN)"
    by code_simp
  have p2: "push stub_chess (fromFEN INITIAL_BOARD_FEN) 51 35 None =
            Some \<lparr>fen = ''b:d4'', move = Some (snd (stub_table ! 1))\<rparr>"
    by code_simp
  have m2: "\<not> main (t_position ?t2) \<and> index (t_position ?t2) = 0 \<and> length (t_hypothetical ?t2) = 4"
    by code_simp
  show ?thesis
    using makeMove_legal[OF g1 p1] makeMove_legal[OF g2 p2] m1 m2
    by (simp add: Let_def)
qed

text \<open>
  C7.  \<open>previous\<close> (stepBackward): with a positive cursor index, on either branch, the index
  goes down by one; on the hypothetical branch at index 0 with a non-empty main line, the
  cursor becomes \<open>{main: true, index: forkIndex}\<close> and the hypothetical branch is emptied;
  in every other case the state is unchanged.  The returned cursor is the new one.
\<close>

theorem previous_behaviour:
  "(0 < index (t_position t) \<longrightarrow>
      snd (previous t) = t\<lparr>t_position := (t_position t)\<lparr>index := index (t_position t) - 1\<rparr>\<rparr>)
   \<and> (\<not> main (t_position t) \<and> index (t_position t) = 0 \<and> t_main t \<noteq> [] \<longrightarrow>
      snd (previous t) =
        t\<lparr>t_position := \<lparr>main = True, index = t_hypotheticalForksFrom t\<rparr>, t_hypothetical := []\<rparr>)
   \<and> (index (t_position t) = 0 \<and> (main (t_position t) \<or> t_main t = []) \<longrightarrow>
      snd (previous t) = t)
   \<and> fst (previous t) = t_position (snd (previous t))"
  by (simp add: previous_def Let_def getPosition_def)

theorem previous_behaviour_witness:
  "(let t = run stub_chess [LoadPGN ''1. e4 e5'', Next, Next]
    in 0 < index (t_position t) \<and> t_position (snd (previous t)) = \<lparr>main = True, index = 1\<rparr>)
   \<and> (let t = run stub_chess [MakeMove 52 36 None]
       in 0 < index (t_position t) \<and> t_position (snd (previous t)) = \<lparr>main = False, index = 0\<rparr>)
   \<and> (let t = run stub_chess [LoadPGN ''1. e4 e5'', Next, MakeMove 12 28 None]
       in \<not> main (t_position t) \<and> index (t_position t) = 0 \<and> t_main t \<noteq> []
          \<and> t_hypothetical t \<noteq> []
          \<and> t_position (snd (previous t)) = \<lparr>main = True, index = 1\<rparr>
          \<and> t_hypothetical (snd (previous t)) = [])
   \<and> (let t = run stub_chess [LoadPGN ''1. e4 e5'']
       in index (t_position t) = 0 \<and> main (t_position t) \<and> snd (previous t) = t)
   \<and> (let t = run stub_chess []
       in index (t_position t) = 0 \<and> t_main t = [] \<and> snd (previous t) = t)"
proof -
  let ?t1 = "run stub_chess [LoadPGN ''1. e4 e5'', Next, Next]"
  let ?t2 = "run stub_chess [MakeMove 52 36 None]"
  let ?t3 = "run stub_chess [LoadPGN ''1. e4 e5'', Next, MakeMove 12 28 None]"
  let ?t4 = "run stub_chess [LoadPGN ''1. e4 e5'']"
  let ?t5 = "run stub_chess []"
  have h1: "t_position ?t1 = \<lparr>main = True, index = 2\<rparr>" by code_simp
  have h2: "t_position ?t2 = \<lparr>main = False, index = 1\<rparr>" by code_simp
  have h3: "t_position ?t3 = \<lparr>main = False, index = 0\<rparr> \<and> t_main ?t3 \<noteq> []
            \<and> t_hypothetical ?t3 \<noteq> [] \<and> t_hypotheticalForksFrom ?t3 = 1" by code_simp
  have h4: "t_position ?t4 = \<lparr>main = True, index = 0\<rparr>" by code_simp
  have h5: "t_position ?t5 = \<lparr>main = False, index = 0\<rparr> \<and> t_main ?t5 = []" by code_simp
  show ?thesis
    using previous_behaviour[of ?t1] previous_behaviour[of ?t2] previous_behaviour[of ?t3]
          previous_behaviour[of ?t4] previous_behaviour[of ?t5] h1 h2 h3 h4 h5
    by (simp add: Let_def)
qed

section \<open>GameReviewer: the evaluation loop\<close>

lemma getEvaluations_loop_frame:
  "getEvaluations_loop c sf i ls lsc evs r = (res, r') \<Longrightarrow> \<exists>p. r' = r\<lparr>r_progress := p\<rparr>"
proof (induction c sf i ls lsc evs r rule: getEvaluations_loop.induct)
  case (1 c sf i ls lsc evs r)
  show ?case
  proof (cases "i < length (r_timeline r)")
    case False
    with "1.prems" have "r' = r" by (subst (asm) getEvaluations_loop.simps) simp
    then have "r' = r\<lparr>r_progress := r_progress r\<rparr>" by simp
    then show ?thesis by blast
  next
    case True
    show ?thesis
    proof (cases "sf (fen (r_timeline r ! i)) 10")
      case (Inl e)
      with True "1.prems" have "r' = r" by (subst (asm) getEvaluations_loop.simps) simp
      then have "r' = r\<lparr>r_progress := r_progress r\<rparr>" by simp
      then show ?thesis by blast
    next
      case (Inr sc)
      show ?thesis
      proof (cases "evalAsAbsoluteScore sc")
        case (Inl e)
        with True Inr "1.prems" have "r' = r" by (subst (asm) getEvaluations_loop.simps) simp
        then have "r' = r\<lparr>r_progress := r_progress r\<rparr>" by simp
        then show ?thesis by blast
      next
        case (Inr thisScore)
        let ?d = "thisScore - lsc"
        let ?d' = "if chess_turn c (fen ls) = Black then - ?d else ?d"
        let ?r1 = "r\<lparr>r_progress := of_nat (i + 1) / of_nat (length (r_timeline r))\<rparr>"
        from True \<open>sf (fen (r_timeline r ! i)) 10 = Inr sc\<close> Inr "1.prems"
        have "getEvaluations_loop c sf (i + 1) (r_timeline r ! i) thisScore
                (evs @ [\<lparr>e_eval = sc, e_deltaScore = ?d'\<rparr>]) ?r1 = (res, r')"
          by (subst (asm) getEvaluations_loop.simps) (simp add: Let_def)
        from "1.IH"[OF True refl \<open>sf (fen (r_timeline r ! i)) 10 = Inr sc\<close> Inr refl refl this]
        obtain p where "r' = ?r1\<lparr>r_progress := p\<rparr>" by blast
        then have "r' = r\<lparr>r_progress := p\<rparr>" by simp
        then show ?thesis by blast
      qed
    qed
  qed
qed

lemma getEvaluations_loop_done:
  "\<not> i < length (r_timeline r) \<Longrightarrow> getEvaluations_loop c sf i ls lsc evs r = (Inr evs, r)"
  by (subst getEvaluations_loop.simps) simp

lemma getEvaluations_loop_throw:
  "i < length (r_timeline r) \<Longrightarrow> sf (fen (r_timeline r ! i)) 10 = Inl e \<Longrightarrow>
   getEvaluations_loop c sf i ls lsc evs r = (Inl StockfishEvaluationFailed, r)"
  by (subst getEvaluations_loop.simps) simp

lemma getEvaluations_loop_step:
  "i < length (r_timeline r) \<Longrightarrow> sf (fen (r_timeline r ! i)) 10 = Inr sc \<Longrightarrow>
   evalAsAbsoluteScore sc = Inr a \<Longrightarrow>
   getEvaluations_loop c sf i ls lsc evs r =
     getEvaluations_loop c sf (i + 1) (r_timeline r ! i) a
       (evs @ [\<lparr>e_eval = sc,
                e_deltaScore = (if chess_turn c (fen ls) = Black then - (a - lsc) else a - lsc)\<rparr>])
       (r\<lparr>r_progress := of_nat (i + 1) / of_nat (length (r_timeline r))\<rparr>)"
  by (subst getEvaluations_loop.simps) (simp add: Let_def)

lemma scoreableE:
  assumes "scoreable sf tline j"
  obtains sc a where "sf (fen (tline ! j)) 10 = Inr sc" and "evalAsAbsoluteScore sc = Inr a"
  using assms by (auto simp: scoreable_def split: sum.splits)

lemma entry_ok_append:
  assumes "j < length xs" shows "entry_ok c sf tline (xs @ ys) j = entry_ok c sf tline xs j"
proof -
  have a: "(xs @ ys) ! j = xs ! j" using assms by (simp add: nth_append)
  have b: "(xs @ ys) ! (j - 1) = xs ! (j - 1)" using assms by (simp add: nth_append)
  show ?thesis by (simp only: entry_ok_def a b)
qed

lemma entry_okI:
  assumes "sf (fen (tline ! j)) 10 = Inr (e_eval (xs ! j))"
      and "evalAsAbsoluteScore (e_eval (xs ! j)) = Inr a"
      and "j \<noteq> 0 \<Longrightarrow> evalAsAbsoluteScore (e_eval (xs ! (j - 1))) = Inr b"
      and "j \<noteq> 0 \<Longrightarrow> e_deltaScore (xs ! j) =
             (if chess_turn c (fen (tline ! (j - 1))) = Black then - (a - b) else a - b)"
  shows "entry_ok c sf tline xs j"
proof (cases "j = 0")
  case True
  then show ?thesis using assms(1,2) by (simp add: entry_ok_def)
next
  case False
  have "entry_ok c sf tline xs j =
          (e_deltaScore (xs ! j) =
             (if chess_turn c (fen (tline ! (j - 1))) = Black then - (a - b) else a - b))"
    unfolding entry_ok_def using False assms(1,2) assms(3)[OF False] by (simp only:) simp
  then show ?thesis using assms(4)[OF False] by simp
qed

lemma getEvaluations_loop_ok:
  assumes "\<forall>j. i \<le> j \<and> j < length tline \<longrightarrow> scoreable sf tline j"
      and "r_timeline r = tline" and "length evs = i" and "i \<le> length tline"
      and "0 < i \<longrightarrow> ls = tline ! (i - 1) \<and> evalAsAbsoluteScore (e_eval (evs ! (i - 1))) = Inr lsc"
      and "\<forall>j<i. entry_ok c sf tline evs j"
  shows "\<exists>res r'. getEvaluations_loop c sf i ls lsc evs r = (Inr res, r')
           \<and> length res = length tline \<and> (\<forall>j<length tline. entry_ok c sf tline res j)"
  using assms
proof (induction "length tline - i" arbitrary: i ls lsc evs r)
  case 0
  then have "i = length tline" by simp
  then have "getEvaluations_loop c sf i ls lsc evs r = (Inr evs, r)"
    using "0.prems"(2) by (simp add: getEvaluations_loop_done)
  then show ?case using "0.prems" \<open>i = length tline\<close> by simp
next
  case (Suc n)
  then have lt: "i < length tline" by simp
  then have "scoreable sf tline i" using Suc.prems(1) by simp
  then obtain sc a where sc: "sf (fen (tline ! i)) 10 = Inr sc" and a: "evalAsAbsoluteScore sc = Inr a"
    by (rule scoreableE)
  let ?e = "\<lparr>e_eval = sc,
             e_deltaScore = (if chess_turn c (fen ls) = Black then - (a - lsc) else a - lsc)\<rparr>"
  let ?r1 = "r\<lparr>r_progress := of_nat (i + 1) / of_nat (length (r_timeline r))\<rparr>"
  have step: "getEvaluations_loop c sf i ls lsc evs r =
              getEvaluations_loop c sf (i + 1) (tline ! i) a (evs @ [?e]) ?r1"
    using getEvaluations_loop_step[of i r sf sc a c ls lsc evs] lt sc a Suc.prems(2) by simp
  have at_i: "(evs @ [?e]) ! i = ?e"
    using nth_append_length[of evs ?e "[]"] Suc.prems(3) by simp
  have new: "entry_ok c sf tline (evs @ [?e]) i"
  proof (rule entry_okI[where a = a and b = lsc])
    show "sf (fen (tline ! i)) 10 = Inr (e_eval ((evs @ [?e]) ! i))"
      unfolding at_i using sc by simp
    show "evalAsAbsoluteScore (e_eval ((evs @ [?e]) ! i)) = Inr a"
      unfolding at_i using a by simp
  next
    assume nz: "i \<noteq> 0"
    then have before: "(evs @ [?e]) ! (i - 1) = evs ! (i - 1)"
      using Suc.prems(3) by (simp add: nth_append)
    have prev: "ls = tline ! (i - 1)" "evalAsAbsoluteScore (e_eval (evs ! (i - 1))) = Inr lsc"
      using nz Suc.prems(5) by simp_all
    show "evalAsAbsoluteScore (e_eval ((evs @ [?e]) ! (i - 1))) = Inr lsc"
      unfolding before by (rule prev(2))
    show "e_deltaScore ((evs @ [?e]) ! i) =
            (if chess_turn c (fen (tline ! (i - 1))) = Black then - (a - lsc) else a - lsc)"
      unfolding at_i prev(1)[symmetric] by simp
  qed
  have old: "\<forall>j<i + 1. entry_ok c sf tline (evs @ [?e]) j"
  proof (intro allI impI)
    fix j assume "j < i + 1"
    show "entry_ok c sf tline (evs @ [?e]) j"
    proof (cases "j = i")
      case True then show ?thesis using new by simp
    next
      case False
      with \<open>j < i + 1\<close> have "j < length evs" using Suc.prems(3) by simp
      then show ?thesis using entry_ok_append[of j evs] Suc.prems(6) Suc.prems(3) by simp
    qed
  qed
  have last: "0 < i + 1 \<longrightarrow> tline ! i = tline ! (i + 1 - 1)
               \<and> evalAsAbsoluteScore (e_eval ((evs @ [?e]) ! (i + 1 - 1))) = Inr a"
    using at_i a by simp
  have "\<exists>res r'. getEvaluations_loop c sf (i + 1) (tline ! i) a (evs @ [?e]) ?r1 = (Inr res, r')
           \<and> length res = length tline \<and> (\<forall>j<length tline. entry_ok c sf tline res j)"
  proof (rule Suc.hyps(1))
    show "n = length tline - (i + 1)" using Suc.hyps(2) by simp
    show "\<forall>j. i + 1 \<le> j \<and> j < length tline \<longrightarrow> scoreable sf tline j" using Suc.prems(1) by simp
    show "r_timeline ?r1 = tline" using Suc.prems(2) by simp
    show "length (evs @ [?e]) = i + 1" using Suc.prems(3) by simp
    show "i + 1 \<le> length tline" using lt by simp
    show "0 < i + 1 \<longrightarrow> tline ! i = tline ! (i + 1 - 1)
               \<and> evalAsAbsoluteScore (e_eval ((evs @ [?e]) ! (i + 1 - 1))) = Inr a" by (rule last)
    show "\<forall>j<i + 1. entry_ok c sf tline (evs @ [?e]) j" by (rule old)
  qed
  then show ?case using step by simp
qed

lemma getEvaluations_loop_fails:
  assumes "i \<le> k" and "k < length (r_timeline r)"
      and "sf (fen (r_timeline r ! k)) 10 = Inl e"
      and "\<forall>j. i \<le> j \<and> j < k \<longrightarrow> scoreable sf (r_timeline r) j"
  shows "fst (getEvaluations_loop c sf i ls lsc evs r) = Inl StockfishEvaluationFailed"
  using assms
proof (induction "k - i" arbitrary: i ls lsc evs r)
  case 0
  then have "i = k" by simp
  then show ?case using "0.prems" by (simp add: getEvaluations_loop_throw)
next
  case (Suc n)
  then have lt: "i < k" by simp
  then have "scoreable sf (r_timeline r) i" using Suc.prems(4) by simp
  then obtain sc a where sc: "sf (fen (r_timeline r ! i)) 10 = Inr sc"
                     and a: "evalAsAbsoluteScore sc = Inr a"
    by (rule scoreableE)
  let ?e = "\<lparr>e_eval = sc,
             e_deltaScore = (if chess_turn c (fen ls) = Black then - (a - lsc) else a - lsc)\<rparr>"
  let ?r1 = "r\<lparr>r_progress := of_nat (i + 1) / of_nat (length (r_timeline r))\<rparr>"
  have step: "getEvaluations_loop c sf i ls lsc evs r =
              getEvaluations_loop c sf (i + 1) (r_timeline r ! i) a (evs @ [?e]) ?r1"
    using getEvaluations_loop_step[of i r sf sc a c ls lsc evs] lt sc a Suc.prems(2) by simp
  have "fst (getEvaluations_loop c sf (i + 1) (r_timeline r ! i) a (evs @ [?e]) ?r1)
          = Inl StockfishEvaluationFailed"
  proof (rule Suc.hyps(1))
    show "n = k - (i + 1)" using Suc.hyps(2) by simp
    show "i + 1 \<le> k" using lt by simp
    show "k < length (r_timeline ?r1)" using Suc.prems(2) by simp
    show "sf (fen (r_timeline ?r1 ! k)) 10 = Inl e" using Suc.prems(3) by simp
    show "\<forall>j. i + 1 \<le> j \<and> j < k \<longrightarrow> scoreable sf (r_timeline ?r1) j" using Suc.prems(4) by simp
  qed
  then show ?case using step by simp
qed

section \<open>GameReviewer: the annotation loop and the whole pass\<close>

lemma annotations_loop_frame:
  "annotations_loop c book evs i r = (res, r') \<Longrightarrow> \<exists>as. r' = r\<lparr>r_timelineAnnotations := as\<rparr>"
proof (induction c book evs i r rule: annotations_loop.induct)
  case (1 c book evs i r)
  show ?case
  proof (cases "i < length evs")
    case False
    with "1.prems" have "r' = r" by (subst (asm) annotations_loop.simps) simp
    then have "r' = r\<lparr>r_timelineAnnotations := r_timelineAnnotations r\<rparr>" by simp
    then show ?thesis by blast
  next
    case True
    show ?thesis
    proof (cases "annotate c book (r_timeline r) (evs ! (i - 1)) (evs ! i) i")
      case (Inl e)
      with True "1.prems" have "r' = r" by (subst (asm) annotations_loop.simps) simp
      then have "r' = r\<lparr>r_timelineAnnotations := r_timelineAnnotations r\<rparr>" by simp
      then show ?thesis by blast
    next
      case (Inr a)
      let ?r1 = "r\<lparr>r_timelineAnnotations := addAnnotation i a (r_timelineAnnotations r)\<rparr>"
      from True Inr "1.prems" have "annotations_loop c book evs (i + 1) ?r1 = (res, r')"
        by (subst (asm) annotations_loop.simps) simp
      from "1.IH"[OF True Inr this] obtain as where "r' = ?r1\<lparr>r_timelineAnnotations := as\<rparr>"
        by blast
      then have "r' = r\<lparr>r_timelineAnnotations := as\<rparr>" by simp
      then show ?thesis by blast
    qed
  qed
qed

lemma beginGameReview_error_state:
  assumes "\<not> r_busy r" and "\<not> r_completed r"
      and "beginGameReview c sf fetchBook r = (Inl e, r')"
  shows "r_busy r' \<and> \<not> r_completed r'"
proof -
  obtain res1 r1 where g: "getEvaluations c sf (r\<lparr>r_busy := True\<rparr>) = (res1, r1)"
    by (cases "getEvaluations c sf (r\<lparr>r_busy := True\<rparr>)")
  then obtain p where r1: "r1 = r\<lparr>r_busy := True, r_progress := p\<rparr>"
    unfolding getEvaluations_def using getEvaluations_loop_frame by blast
  show ?thesis
  proof (cases res1)
    case (Inl e1)
    then have "r' = r1" using assms g by (simp add: beginGameReview_def)
    then show ?thesis using r1 assms by simp
  next
    case (Inr evs)
    show ?thesis
    proof (cases fetchBook)
      case (Inl e2)
      then have "r' = r1" using assms g Inr by (simp add: beginGameReview_def)
      then show ?thesis using r1 assms by simp
    next
      case book: (Inr openingBook)
      obtain res2 r2 where l: "annotations_loop c openingBook evs 1 r1 = (res2, r2)"
        by (cases "annotations_loop c openingBook evs 1 r1")
      then obtain as where r2: "r2 = r1\<lparr>r_timelineAnnotations := as\<rparr>"
        using annotations_loop_frame by blast
      have "r' = r2" using assms g Inr book l by (cases res2) (simp_all add: beginGameReview_def)
      then show ?thesis using r1 r2 assms by simp
    qed
  qed
qed

lemma GameReviewer_new_fresh:
  "timeline \<noteq> [] \<Longrightarrow> GameReviewer_new timeline = Inr (fresh_reviewer timeline)"
  by (simp add: GameReviewer_new_def fresh_reviewer_def)

lemma annotate_keeps_record:
  "annotate c openingBook timeline prev cur i = Inr a \<Longrightarrow>
   deltaScore a = e_deltaScore cur \<and> evaluation a = e_eval cur"
  by (auto simp: annotate_def Let_def
           split: option.splits list.splits if_splits sum.splits bool.splits prod.splits)

section \<open>GameReviewer: what a completed pass stores\<close>

lemma annotations_loop_step:
  "i < length evs \<Longrightarrow>
   annotate c book (r_timeline r) (evs ! (i - 1)) (evs ! i) i = Inr a \<Longrightarrow>
   annotations_loop c book evs i r =
     annotations_loop c book evs (i + 1)
       (r\<lparr>r_timelineAnnotations := addAnnotation i a (r_timelineAnnotations r)\<rparr>)"
  by (subst annotations_loop.simps) simp

lemma annotations_loop_keeps_earlier:
  assumes "annotations_loop c book evs i r = (res, r')"
      and "length (r_timelineAnnotations r) = length evs"
  shows "length (r_timelineAnnotations r') = length evs
       \<and> (\<forall>j<i. r_timelineAnnotations r' ! j = r_timelineAnnotations r ! j)
       \<and> r_timeline r' = r_timeline r"
  using assms
proof (induction c book evs i r rule: annotations_loop.induct)
  case (1 c book evs i r)
  show ?case
  proof (cases "i < length evs")
    case False
    with "1.prems" have "r' = r" by (subst (asm) annotations_loop.simps) simp
    then show ?thesis using "1.prems"(2) by simp
  next
    case True
    show ?thesis
    proof (cases "annotate c book (r_timeline r) (evs ! (i - 1)) (evs ! i) i")
      case (Inl e)
      with True "1.prems" have "r' = r" by (subst (asm) annotations_loop.simps) simp
      then show ?thesis using "1.prems"(2) by simp
    next
      case (Inr a)
      let ?r1 = "r\<lparr>r_timelineAnnotations := addAnnotation i a (r_timelineAnnotations r)\<rparr>"
      have l1: "length (r_timelineAnnotations ?r1) = length evs"
        using True "1.prems"(2) by (simp add: addAnnotation_def)
      have rec: "annotations_loop c book evs (i + 1) ?r1 = (res, r')"
        using annotations_loop_step[OF True Inr] "1.prems"(1) by simp
      from "1.IH"[OF True Inr rec l1]
      have ih: "length (r_timelineAnnotations r') = length evs"
               "\<forall>j<i + 1. r_timelineAnnotations r' ! j = r_timelineAnnotations ?r1 ! j"
               "r_timeline r' = r_timeline ?r1"
        by simp_all
      have "r_timelineAnnotations r' ! j = r_timelineAnnotations r ! j" if "j < i" for j
      proof -
        have "r_timelineAnnotations r' ! j = r_timelineAnnotations ?r1 ! j" using ih(2) that by simp
        also have "\<dots> = r_timelineAnnotations r ! j"
          using that True "1.prems"(2) by (simp add: addAnnotation_def)
        finally show ?thesis .
      qed
      then show ?thesis using ih(1,3) by simp
    qed
  qed
qed

lemma annotations_loop_stores:
  assumes "annotations_loop c book evs i r = (Inr u, r')"
      and "length (r_timelineAnnotations r) = length evs"
      and "i \<le> j" and "j < length evs"
  shows "\<exists>a. annotate c book (r_timeline r) (evs ! (j - 1)) (evs ! j) j = Inr a
           \<and> r_timelineAnnotations r' ! j = Some a"
  using assms
proof (induction c book evs i r rule: annotations_loop.induct)
  case (1 c book evs i r)
  have lt: "i < length evs" using "1.prems"(3,4) by simp
  show ?case
  proof (cases "annotate c book (r_timeline r) (evs ! (i - 1)) (evs ! i) i")
    case (Inl e)
    with lt "1.prems"(1) show ?thesis by (subst (asm) annotations_loop.simps) simp
  next
    case (Inr a)
    let ?r1 = "r\<lparr>r_timelineAnnotations := addAnnotation i a (r_timelineAnnotations r)\<rparr>"
    have l1: "length (r_timelineAnnotations ?r1) = length evs"
      using lt "1.prems"(2) by (simp add: addAnnotation_def)
    have rec: "annotations_loop c book evs (i + 1) ?r1 = (Inr u, r')"
      using annotations_loop_step[OF lt Inr] "1.prems"(1) by simp
    show ?thesis
    proof (cases "j = i")
      case True
      have "r_timelineAnnotations r' ! i = r_timelineAnnotations ?r1 ! i"
        using annotations_loop_keeps_earlier[OF rec l1] by simp
      also have "\<dots> = Some a" using lt "1.prems"(2) by (simp add: addAnnotation_def)
      finally show ?thesis using True Inr by simp
    next
      case False
      then have "i + 1 \<le> j" using "1.prems"(3) by simp
      from "1.IH"[OF lt Inr rec l1 this "1.prems"(4)] show ?thesis by simp
    qed
  qed
qed

lemma getEvaluations_loop_length:
  "fst (getEvaluations_loop c sf i ls lsc xs rr) = Inr ys \<Longrightarrow>
   length ys = length xs + (length (r_timeline rr) - i)"
proof (induction c sf i ls lsc xs rr rule: getEvaluations_loop.induct)
  case (1 c sf i ls lsc xs rr)
  show ?case
  proof (cases "i < length (r_timeline rr)")
    case False
    then show ?thesis using "1.prems" by (simp add: getEvaluations_loop_done)
  next
    case True
    show ?thesis
    proof (cases "sf (fen (r_timeline rr ! i)) 10")
      case (Inl e)
      then show ?thesis using True "1.prems" by (simp add: getEvaluations_loop_throw)
    next
      case (Inr sc)
      show ?thesis
      proof (cases "evalAsAbsoluteScore sc")
        case (Inl e)
        then show ?thesis using True Inr "1.prems"
          by (subst (asm) getEvaluations_loop.simps) simp
      next
        case a: (Inr a)
        have "fst (getEvaluations_loop c sf (i + 1) (r_timeline rr ! i) a
                (xs @ [\<lparr>e_eval = sc, e_deltaScore =
                    (if chess_turn c (fen ls) = Black then - (a - lsc) else a - lsc)\<rparr>])
                (rr\<lparr>r_progress := of_nat (i + 1) / of_nat (length (r_timeline rr))\<rparr>)) = Inr ys"
          using getEvaluations_loop_step[of i rr sf sc a c ls lsc xs] True Inr a "1.prems" by simp
        from "1.IH"[OF True refl Inr a refl refl this] True show ?thesis by simp
      qed
    qed
  qed
qed

text \<open>A completed pass: the game reviewer is completed and no longer busy, the store is
  returned by \<open>getAnnotations\<close>, slot 0 is empty, and slot \<open>i \<ge> 1\<close> holds what the loop body
  computes from the evaluation records \<open>i - 1\<close> and \<open>i\<close>.\<close>

lemma beginGameReview_completed:
  assumes "beginGameReview c sf fetchBook r = (Inr u, r')"
      and "r_timelineAnnotations r = TimelineAnnotations_new (r_timeline r)"
      and "r_timeline r \<noteq> []"
  shows "\<exists>evs r1 book. getEvaluations c sf (r\<lparr>r_busy := True\<rparr>) = (Inr evs, r1)
           \<and> fetchBook = Inr book
           \<and> r_completed r' \<and> \<not> r_busy r'
           \<and> getAnnotations r' = Some (r_timelineAnnotations r')
           \<and> length (r_timelineAnnotations r') = length (r_timeline r)
           \<and> r_timelineAnnotations r' ! 0 = None
           \<and> (\<forall>i. 1 \<le> i \<and> i < length (r_timeline r) \<longrightarrow>
                (\<exists>a. annotate c book (r_timeline r) (evs ! (i - 1)) (evs ! i) i = Inr a
                    \<and> r_timelineAnnotations r' ! i = Some a))"
proof -
  let ?r0 = "r\<lparr>r_busy := True\<rparr>"
  have nb: "\<not> r_busy r" "\<not> r_completed r"
    using assms(1) by (auto simp: beginGameReview_def split: if_splits)
  obtain res1 r1 where g: "getEvaluations c sf ?r0 = (res1, r1)"
    by (cases "getEvaluations c sf ?r0")
  then obtain p where r1: "r1 = ?r0\<lparr>r_progress := p\<rparr>"
    unfolding getEvaluations_def using getEvaluations_loop_frame by blast
  from assms(1) nb g obtain evs where res1: "res1 = Inr evs"
    by (cases res1) (simp_all add: beginGameReview_def)
  from assms(1) nb g res1 obtain book where fb: "fetchBook = Inr book"
    by (cases fetchBook) (simp_all add: beginGameReview_def)
  obtain res2 r2 where l: "annotations_loop c book evs 1 r1 = (res2, r2)"
    by (cases "annotations_loop c book evs 1 r1")
  from assms(1) nb g res1 fb l have res2: "res2 = Inr ()"
    and r': "r' = r2\<lparr>r_busy := False, r_completed := True\<rparr>"
    by (cases res2; simp add: beginGameReview_def)+
  have len_evs: "length evs = length (r_timeline r)"
    using getEvaluations_loop_length[of c sf 0 "r_timeline ?r0 ! 0" 0 "[]" ?r0 evs] g res1
    by (simp add: getEvaluations_def)
  have l1: "length (r_timelineAnnotations r1) = length evs"
    using r1 assms(2) len_evs by (simp add: TimelineAnnotations_new_def)
  have tl1: "r_timeline r1 = r_timeline r" using r1 by simp
  have keep: "r_timelineAnnotations r2 ! 0 = r_timelineAnnotations r1 ! 0"
    using annotations_loop_keeps_earlier[OF l l1] by simp
  have zero: "r_timelineAnnotations r' ! 0 = None"
    using keep r' r1 assms(2,3) by (simp add: TimelineAnnotations_new_def)
  have each: "\<exists>a. annotate c book (r_timeline r) (evs ! (i - 1)) (evs ! i) i = Inr a
                \<and> r_timelineAnnotations r' ! i = Some a"
    if "1 \<le> i \<and> i < length (r_timeline r)" for i
  proof -
    from that len_evs have "1 \<le> i" "i < length evs" by simp_all
    from annotations_loop_stores[OF l[unfolded res2] l1 this] show ?thesis
      using tl1 r' by simp
  qed
  have len: "length (r_timelineAnnotations r') = length (r_timeline r)"
    using annotations_loop_keeps_earlier[OF l l1] r' len_evs by simp
  show ?thesis
    using g res1 fb r' zero each len by (auto simp: getAnnotations_def)
qed

text \<open>On the store of every completed pass the two ratios are taken over one more than
  the number of annotated moves.\<close>

lemma numAnnotated_store:
  assumes "as \<noteq> []" and "as ! 0 = None"
      and "\<forall>i. 1 \<le> i \<and> i < length as \<longrightarrow> as ! i \<noteq> None"
  shows "numAnnotated as + 1 = length as"
proof -
  obtain x xs where as: "as = x # xs" using assms(1) by (cases as) auto
  have x: "x = None" using assms(2) as by simp
  have "y \<noteq> None" if "y \<in> set xs" for y
  proof -
    from that obtain k where "k < length xs" "xs ! k = y" by (auto simp: in_set_conv_nth)
    then show ?thesis using assms(3)[rule_format, of "Suc k"] as by auto
  qed
  then have "filter (\<lambda>a. a \<noteq> None) xs = xs" by (simp add: filter_id_conv)
  then show ?thesis using as x by (simp add: numAnnotated_def)
qed

lemma completed_review_ratios:
  assumes "beginGameReview c sf fetchBook r = (Inr u, r')"
      and "r_timelineAnnotations r = TimelineAnnotations_new (r_timeline r)"
      and "r_timeline r \<noteq> []"
  shows "computeAccuracy (r_timelineAnnotations r') =
           Some (of_nat (numGoodMoves (r_timelineAnnotations r') 0)
                 / of_nat (numAnnotated (r_timelineAnnotations r') + 1))
       \<and> computeWeightedAccuracy (r_timelineAnnotations r') =
           Some (weightedScore (r_timelineAnnotations r') 0
                 / of_nat (numAnnotated (r_timelineAnnotations r') + 1))"
proof -
  let ?as = "r_timelineAnnotations r'"
  from beginGameReview_completed[OF assms]
  have len: "length ?as = length (r_timeline r)" and z: "?as ! 0 = None"
    and s: "\<forall>i. 1 \<le> i \<and> i < length (r_timeline r) \<longrightarrow> ?as ! i \<noteq> None"
    by auto
  have ne: "?as \<noteq> []" using len assms(3) by auto
  have "numAnnotated ?as + 1 = length ?as"
    by (rule numAnnotated_store[OF ne z]) (use s len in simp)
  then show ?thesis using ne
    by (simp add: computeAccuracy_def computeWeightedAccuracy_def)
qed

section \<open>GameReviewer: the stated properties\<close>

lemma getEvaluations_entries:
  assumes "\<forall>j<length (r_timeline r). scoreable sf (r_timeline r) j"
  shows "\<exists>evs r'. getEvaluations c sf r = (Inr evs, r') \<and> length evs = length (r_timeline r)
           \<and> (\<forall>j<length (r_timeline r). entry_ok c sf (r_timeline r) evs j)"
  unfolding getEvaluations_def
  by (rule getEvaluations_loop_ok) (use assms in simp_all)

lemma entry_okD:
  assumes "entry_ok c sf tline xs j" and "j \<noteq> 0"
  shows "\<exists>a b. sf (fen (tline ! j)) 10 = Inr (e_eval (xs ! j))
           \<and> evalAsAbsoluteScore (e_eval (xs ! j)) = Inr a
           \<and> evalAsAbsoluteScore (e_eval (xs ! (j - 1))) = Inr b
           \<and> e_deltaScore (xs ! j) =
               (if chess_turn c (fen (tline ! (j - 1))) = Black then - (a - b) else a - b)"
  using assms unfolding entry_ok_def by (simp only: split: sum.splits if_splits) auto

text \<open>
  C3.  When every engine call of the pass returns an evaluation that has an absolute score,
  \<open>_getEvaluations\<close> returns one record per position, and for every index \<open>i \<ge> 1\<close> the
  record holds the engine's evaluation of position \<open>i\<close> and a delta equal to the absolute
  score at \<open>i\<close> minus the absolute score at \<open>i - 1\<close>, negated exactly when black was to
  move in position \<open>i - 1\<close>.  So the delta is positive exactly when the absolute score moved
  in the mover's direction: up for white, down for black.
\<close>

theorem delta_sign_convention:
  assumes "\<forall>j<length (r_timeline r). scoreable sf (r_timeline r) j"
  shows "\<exists>evs r'. getEvaluations c sf r = (Inr evs, r') \<and> length evs = length (r_timeline r)
           \<and> (\<forall>i. 1 \<le> i \<and> i < length (r_timeline r) \<longrightarrow>
                (\<exists>a b. sf (fen (r_timeline r ! i)) 10 = Inr (e_eval (evs ! i))
                   \<and> evalAsAbsoluteScore (e_eval (evs ! i)) = Inr a
                   \<and> evalAsAbsoluteScore (e_eval (evs ! (i - 1))) = Inr b
                   \<and> e_deltaScore (evs ! i) =
                       (if chess_turn c (fen (r_timeline r ! (i - 1))) = Black
                        then - (a - b) else a - b)
                   \<and> (0 < e_deltaScore (evs ! i) \<longleftrightarrow>
                       (if chess_turn c (fen (r_timeline r ! (i - 1))) = Black
                        then a < b else b < a))))"
proof -
  from getEvaluations_entries[OF assms, of c]
  obtain evs r' where g: "getEvaluations c sf r = (Inr evs, r')"
    and len: "length evs = length (r_timeline r)"
    and ok: "\<forall>j<length (r_timeline r). entry_ok c sf (r_timeline r) evs j"
    by blast
  have "\<exists>a b. sf (fen (r_timeline r ! i)) 10 = Inr (e_eval (evs ! i))
          \<and> evalAsAbsoluteScore (e_eval (evs ! i)) = Inr a
          \<and> evalAsAbsoluteScore (e_eval (evs ! (i - 1))) = Inr b
          \<and> e_deltaScore (evs ! i) =
              (if chess_turn c (fen (r_timeline r ! (i - 1))) = Black then - (a - b) else a - b)
          \<and> (0 < e_deltaScore (evs ! i) \<longleftrightarrow>
              (if chess_turn c (fen (r_timeline r ! (i - 1))) = Black then a < b else b < a))"
    if "1 \<le> i \<and> i < length (r_timeline r)" for i
  proof -
    from that ok have "entry_ok c sf (r_timeline r) evs i" and "i \<noteq> 0" by simp_all
    from entry_okD[OF this] obtain a b where
      e: "sf (fen (r_timeline r ! i)) 10 = Inr (e_eval (evs ! i))"
         "evalAsAbsoluteScore (e_eval (evs ! i)) = Inr a"
         "evalAsAbsoluteScore (e_eval (evs ! (i - 1))) = Inr b"
         "e_deltaScore (evs ! i) =
            (if chess_turn c (fen (r_timeline r ! (i - 1))) = Black then - (a - b) else a - b)"
      by blast
    from e(4) have "0 < e_deltaScore (evs ! i) \<longleftrightarrow>
              (if chess_turn c (fen (r_timeline r ! (i - 1))) = Black then a < b else b < a)"
      by (simp split: if_splits)
    with e show ?thesis by blast
  qed
  with g len show ?thesis by blast
qed

lemma stub_game_scoreable:
  "\<forall>j<length (r_timeline (fresh_reviewer stub_game)).
      scoreable stub_sf (r_timeline (fresh_reviewer stub_game)) j"
proof -
  have l: "length (r_timeline (fresh_reviewer stub_game)) = 3" by code_simp
  have "scoreable stub_sf (r_timeline (fresh_reviewer stub_game)) 0"
       "scoreable stub_sf (r_timeline (fresh_reviewer stub_game)) 1"
       "scoreable stub_sf (r_timeline (fresh_reviewer stub_game)) 2"
    by code_simp+
  then show ?thesis unfolding l by (simp add: less_Suc_eq numeral_3_eq_3 numeral_2_eq_2)
qed

theorem delta_sign_convention_witness:
  "\<exists>evs r'. getEvaluations stub_chess stub_sf (fresh_reviewer stub_game) = (Inr evs, r')
      \<and> length evs = 3
      \<and> chess_turn stub_chess (fen (stub_game ! 0)) = White \<and> e_deltaScore (evs ! 1) = 20
      \<and> chess_turn stub_chess (fen (stub_game ! 1)) = Black \<and> e_deltaScore (evs ! 2) = 5"
proof -
  let ?r = "fresh_reviewer stub_game"
  have l: "length (r_timeline ?r) = 3" by code_simp
  have tl: "r_timeline ?r = stub_game" by (simp add: fresh_reviewer_def)
  have t0: "chess_turn stub_chess (fen (stub_game ! 0)) = White" by code_simp
  have t1: "chess_turn stub_chess (fen (stub_game ! 1)) = Black" by code_simp
  have s0: "stub_sf (fen (stub_game ! 0)) 10 = Inr (stub_line ''e2e4'' 0)" by code_simp
  have s1: "stub_sf (fen (stub_game ! 1)) 10 = Inr (stub_line ''c7c5'' 20)" by code_simp
  have s2: "stub_sf (fen (stub_game ! 2)) 10 = Inr (stub_line ''g1f3'' 15)" by code_simp
  have a0: "evalAsAbsoluteScore (stub_line ''e2e4'' 0) = Inr 0"
   and a1: "evalAsAbsoluteScore (stub_line ''c7c5'' 20) = Inr 20"
   and a2: "evalAsAbsoluteScore (stub_line ''g1f3'' 15) = Inr 15"
    by (simp_all add: evalAsAbsoluteScore_def stub_line_def)
  from delta_sign_convention[OF stub_game_scoreable, of stub_chess]
  obtain evs r' where g: "getEvaluations stub_chess stub_sf ?r = (Inr evs, r')"
    and len: "length evs = length (r_timeline ?r)"
    and d: "\<And>i. 1 \<le> i \<and> i < length (r_timeline ?r) \<Longrightarrow>
                (\<exists>a b. stub_sf (fen (r_timeline ?r ! i)) 10 = Inr (e_eval (evs ! i))
                   \<and> evalAsAbsoluteScore (e_eval (evs ! i)) = Inr a
                   \<and> evalAsAbsoluteScore (e_eval (evs ! (i - 1))) = Inr b
                   \<and> e_deltaScore (evs ! i) =
                       (if chess_turn stub_chess (fen (r_timeline ?r ! (i - 1))) = Black
                        then - (a - b) else a - b)
                   \<and> (0 < e_deltaScore (evs ! i) \<longleftrightarrow>
                       (if chess_turn stub_chess (fen (r_timeline ?r ! (i - 1))) = Black
                        then a < b else b < a)))"
    by blast
  from d[of 1] l obtain a b where
    e1: "stub_sf (fen (stub_game ! 1)) 10 = Inr (e_eval (evs ! 1))"
        "evalAsAbsoluteScore (e_eval (evs ! 1)) = Inr a"
        "evalAsAbsoluteScore (e_eval (evs ! 0)) = Inr b"
        "e_deltaScore (evs ! 1) =
           (if chess_turn stub_chess (fen (stub_game ! 0)) = Black then - (a - b) else a - b)"
    unfolding tl by auto
  from d[of 2] l obtain a' b' where
    e2: "stub_sf (fen (stub_game ! 2)) 10 = Inr (e_eval (evs ! 2))"
        "evalAsAbsoluteScore (e_eval (evs ! 2)) = Inr a'"
        "evalAsAbsoluteScore (e_eval (evs ! 1)) = Inr b'"
        "e_deltaScore (evs ! 2) =
           (if chess_turn stub_chess (fen (stub_game ! 1)) = Black then - (a' - b') else a' - b')"
    unfolding tl by auto
  have ev1: "e_eval (evs ! 1) = stub_line ''c7c5'' 20" using e1(1) s1 by simp
  have ev2: "e_eval (evs ! 2) = stub_line ''g1f3'' 15" using e2(1) s2 by simp
  have "a = 20" using e1(2) a1 ev1 by simp
  have "b' = 20" using e2(3) a1 ev1 by simp
  have "a' = 15" using e2(2) a2 ev2 by simp
  have ev0: "stub_sf (fen (stub_game ! 0)) 10 = Inr (e_eval (evs ! 0))"
  proof -
    have "entry_ok stub_chess stub_sf stub_game evs 0"
      using getEvaluations_entries[OF stub_game_scoreable, of stub_chess] g l tl by auto
    then show ?thesis by (simp add: entry_ok_def)
  qed
  have "e_eval (evs ! 0) = stub_line ''e2e4'' 0" using s0 ev0 by simp
  then have "b = 0" using e1(3) a0 by simp
  show ?thesis
    using g len l t0 t1 e1(4) e2(4) \<open>a = 20\<close> \<open>b = 0\<close> \<open>a' = 15\<close> \<open>b' = 20\<close> by simp
qed

text \<open>
  C9.  The pass asks the engine for the positions in order.  If it gets as far as
  position \<open>k\<close> (every earlier position was answered with an evaluation that has an absolute
  score) and the engine call throws there, then \<open>beginGameReview\<close> on a game reviewer that is
  neither busy nor completed raises the "Stockfish evaluation failed." error, writes no
  annotation, and \<open>getAnnotations\<close> returns \<open>null\<close> afterwards.
\<close>

theorem evaluation_failure_aborts:
  assumes "\<not> r_busy r" and "\<not> r_completed r"
      and "k < length (r_timeline r)"
      and "sf (fen (r_timeline r ! k)) 10 = Inl e"
      and "\<forall>j<k. scoreable sf (r_timeline r) j"
  shows "\<exists>r'. beginGameReview c sf fetchBook r = (Inl StockfishEvaluationFailed, r')
           \<and> getAnnotations r' = None \<and> \<not> isCompleted r'
           \<and> r_timelineAnnotations r' = r_timelineAnnotations r"
proof -
  let ?r0 = "r\<lparr>r_busy := True\<rparr>"
  obtain res1 r1 where g: "getEvaluations c sf ?r0 = (res1, r1)"
    by (cases "getEvaluations c sf ?r0")
  then obtain p where r1: "r1 = ?r0\<lparr>r_progress := p\<rparr>"
    unfolding getEvaluations_def using getEvaluations_loop_frame by blast
  have "fst (getEvaluations c sf ?r0) = Inl StockfishEvaluationFailed"
    unfolding getEvaluations_def
    by (rule getEvaluations_loop_fails[where k = k and e = e]) (use assms in simp_all)
  with g have res1: "res1 = Inl StockfishEvaluationFailed" by simp
  have "beginGameReview c sf fetchBook r = (Inl StockfishEvaluationFailed, r1)"
    using assms(1,2) g res1 by (simp add: beginGameReview_def)
  moreover have "getAnnotations r1 = None" "\<not> isCompleted r1"
    "r_timelineAnnotations r1 = r_timelineAnnotations r"
    using r1 assms(2) by (simp_all add: getAnnotations_def isCompleted_def)
  ultimately show ?thesis by blast
qed

theorem evaluation_failure_aborts_witness:
  "\<not> r_busy (fresh_reviewer stub_game) \<and> \<not> r_completed (fresh_reviewer stub_game)
   \<and> stub_sf_failing (fen (stub_game ! 1)) 10 = Inl TypeError
   \<and> scoreable stub_sf_failing stub_game 0
   \<and> (\<exists>r'. beginGameReview stub_chess stub_sf_failing (Inr Map.empty) (fresh_reviewer stub_game) =
              (Inl StockfishEvaluationFailed, r')
            \<and> getAnnotations r' = None \<and> r_timelineAnnotations r' = [None, None, None])"
proof -
  let ?r = "fresh_reviewer stub_game"
  have tl: "r_timeline ?r = stub_game" by (simp add: fresh_reviewer_def)
  have b: "\<not> r_busy ?r" and cm: "\<not> r_completed ?r" by (simp_all add: fresh_reviewer_def)
  have k: "1 < length (r_timeline ?r)" by code_simp
  have f: "stub_sf_failing (fen (r_timeline ?r ! 1)) 10 = Inl TypeError" by code_simp
  have s0: "scoreable stub_sf_failing stub_game 0" by code_simp
  then have s: "\<forall>j<1. scoreable stub_sf_failing (r_timeline ?r) j" unfolding tl by simp
  have an: "r_timelineAnnotations ?r = [None, None, None]" by code_simp
  show ?thesis
    using evaluation_failure_aborts[OF b cm k f s, of stub_chess "Inr Map.empty"] b cm f s0 an
    unfolding tl by auto
qed

text \<open>
  C10.  If \<open>beginGameReview\<close>, called on a game reviewer that is neither busy nor completed (so
  that it starts), ends by raising an error, the game reviewer is left busy and not completed,
  and any later \<open>beginGameReview\<close> on it, whatever its surroundings, raises "Game review
  already in progress." and leaves the game reviewer as it is.
\<close>

theorem failed_review_stays_busy:
  assumes "\<not> r_busy r" and "\<not> r_completed r"
      and "beginGameReview c sf fetchBook r = (Inl e, r')"
  shows "isBusy r' \<and> \<not> isCompleted r'
       \<and> beginGameReview c2 sf2 fetchBook2 r' = (Inl AlreadyInProgress, r')"
  using beginGameReview_error_state[OF assms]
  by (simp add: isBusy_def isCompleted_def beginGameReview_def)

theorem failed_review_stays_busy_witness:
  "\<not> r_busy (fresh_reviewer stub_game) \<and> \<not> r_completed (fresh_reviewer stub_game)
   \<and> fst (beginGameReview stub_chess stub_sf_failing (Inr Map.empty) (fresh_reviewer stub_game)) =
       Inl StockfishEvaluationFailed
   \<and> isBusy (snd (beginGameReview stub_chess stub_sf_failing (Inr Map.empty) (fresh_reviewer stub_game)))
   \<and> \<not> isCompleted (snd (beginGameReview stub_chess stub_sf_failing (Inr Map.empty)
                             (fresh_reviewer stub_game)))
   \<and> fst (beginGameReview stub_chess stub_sf (Inr Map.empty)
            (snd (beginGameReview stub_chess stub_sf_failing (Inr Map.empty)
                    (fresh_reviewer stub_game)))) = Inl AlreadyInProgress
   \<and> fst (beginGameReview stub_chess stub_sf (Inl FetchFailed) (fresh_reviewer stub_game)) =
       Inl FetchFailed
   \<and> isBusy (snd (beginGameReview stub_chess stub_sf (Inl FetchFailed) (fresh_reviewer stub_game)))"
proof -
  let ?r = "fresh_reviewer stub_game"
  let ?r1 = "?r\<lparr>r_busy := True, r_progress := 1 / 3\<rparr>"
  let ?r2 = "?r\<lparr>r_busy := True, r_progress := 1\<rparr>"
  have b: "\<not> r_busy ?r" and cm: "\<not> r_completed ?r" by (simp_all add: fresh_reviewer_def)
  have e1: "beginGameReview stub_chess stub_sf_failing (Inr Map.empty) ?r =
              (Inl StockfishEvaluationFailed, ?r1)"
    by code_simp
  have e2: "beginGameReview stub_chess stub_sf (Inl FetchFailed) ?r = (Inl FetchFailed, ?r2)"
    by code_simp
  show ?thesis
    using failed_review_stays_busy[OF b cm e1, of stub_chess stub_sf "Inr Map.empty"]
          failed_review_stays_busy[OF b cm e2, of stub_chess stub_sf "Inr Map.empty"]
          b cm e1 e2
    by simp
qed

section \<open>Classification: the stated properties\<close>



text \<open>The main line \<open>loadPGN\<close> builds records, for every position after the first, the move
  that led to it.\<close>

lemma loadPGN_records_moves:
  assumes "chess_loadPgn c pgn = Some (history, header)" and "1 \<le> i" and "i \<le> length history"
  shows "movePlayedAt (t_main (snd (loadPGN c pgn t))) i = Some (history ! (i - 1))"
proof -
  obtain k where k: "i = Suc k" using assms(2) by (cases i) auto
  then show ?thesis using assms(1,3) by (simp add: loadPGN_def movePlayedAt_def)
qed



text \<open>
  C2.  Both ratios divide by the length of the annotation array, which has a slot for the
  starting position that is never annotated.  After the completed review of a two-move
  game labelled Best and Good there are two annotated moves; \<open>computeAccuracy\<close> gives 2/3
  where the ratio over the annotated moves is 1, and \<open>computeWeightedAccuracy\<close> gives 1/2
  where the ratio over the annotated moves is 3/4.
\<close>

theorem accuracy_divides_by_array_length:
  "fst (beginGameReview stub_chess stub_sf (Inr Map.empty) (fresh_reviewer stub_game)) = Inr ()
   \<and> (let as = r_timelineAnnotations
                  (snd (beginGameReview stub_chess stub_sf (Inr Map.empty) (fresh_reviewer stub_game)))
       in getAnnotations
            (snd (beginGameReview stub_chess stub_sf (Inr Map.empty) (fresh_reviewer stub_game))) = Some as
          \<and> map (map_option feedback) as = [None, Some Best, Some Good]
          \<and> numAnnotated as = 2
          \<and> computeAccuracy as = Some (2 / 3) \<and> spec_accuracy as = Some 1
          \<and> computeWeightedAccuracy as = Some (1 / 2) \<and> spec_weightedAccuracy as = Some (3 / 4))"
  by code_simp

text \<open>
  C8, as the code has it.  At an index where the loop body gets as far as the decision list
  (the top line before the move exists and starts with a move the rules library accepts in
  the previous position) and the top line after the move exists, if neither the Book nor
  the Best rule matches then the move is annotated, and its label is Miss exactly when the
  score of the top line before the move is a mate score and the score of the top line after
  the move is not a mate score, for either side.
\<close>

theorem miss_rule:
  assumes "firstContinuation (e_eval prev) = Some preTop"
      and "continuation preTop = best # rest"
      and "i - 1 < length timeline"
      and "chess_move c (fen (timeline ! (i - 1)))
             (slice 0 2 best) (slice 2 4 best) (Some (slice 4 5 best)) = Some (f, bm)"
      and "firstContinuation (e_eval cur) = Some postTop"
      and "bookEntry openingBook (movePlayedAt timeline i) = None"
      and "\<not> matchesBest (movePlayedAt timeline i) best"
  shows "\<exists>a. annotate c openingBook timeline prev cur i = Inr a
           \<and> (feedback a = Miss \<longleftrightarrow> isMate (score preTop) \<and> \<not> isMate (score postTop))"
  using assms
  by (cases "isMate (score preTop)"; cases "isMate (score postTop)")
     (simp_all add: annotate_def Let_def)

theorem miss_rule_witness:
  "firstContinuation (stub_mate ''d1h5'' 2) = Some \<lparr>continuation = [''d1h5''], score = Mate 2\<rparr>
   \<and> firstContinuation (stub_line ''b8c6'' 30) =
       Some \<lparr>continuation = [''b8c6''], score = CentipawnAdvantage 30\<rparr>
   \<and> bookEntry Map.empty (movePlayedAt stub_game3 3) = None
   \<and> \<not> matchesBest (movePlayedAt stub_game3 3) ''d1h5''
   \<and> (\<exists>a. annotate stub_chess Map.empty stub_game3
              \<lparr>e_eval = stub_mate ''d1h5'' 2, e_deltaScore = - 980\<rparr>
              \<lparr>e_eval = stub_line ''b8c6'' 30, e_deltaScore = - 970\<rparr> 3 = Inr a
            \<and> feedback a = Miss)
   \<and> map (map_option feedback)
        (r_timelineAnnotations
          (snd (beginGameReview stub_chess stub_sf_missed (Inr Map.empty) (fresh_reviewer stub_game3)))) =
      [None, Some Best, Some Blunder, Some Miss]"
proof -
  let ?pre = "\<lparr>continuation = [''d1h5''], score = Mate 2\<rparr>"
  let ?post = "\<lparr>continuation = [''b8c6''], score = CentipawnAdvantage 30\<rparr>"
  let ?prev = "\<lparr>e_eval = stub_mate ''d1h5'' 2, e_deltaScore = - 980\<rparr>"
  let ?cur = "\<lparr>e_eval = stub_line ''b8c6'' 30, e_deltaScore = - 970\<rparr>"
  have h1: "firstContinuation (e_eval ?prev) = Some ?pre"
    by (simp add: firstContinuation_def stub_mate_def)
  have h2: "continuation ?pre = ''d1h5'' # []" by simp
  have h3: "3 - 1 < length stub_game3" by code_simp
  have h4: "chess_move stub_chess (fen (stub_game3 ! (3 - 1)))
              (slice 0 2 ''d1h5'') (slice 2 4 ''d1h5'') (Some (slice 4 5 ''d1h5'')) =
            Some (''b:e4e5Qh5'', snd (stub_table ! 5))"
    by code_simp
  have h5: "firstContinuation (e_eval ?cur) = Some ?post"
    by (simp add: firstContinuation_def stub_line_def)
  have h6: "bookEntry Map.empty (movePlayedAt stub_game3 3) = None" by code_simp
  have h7: "\<not> matchesBest (movePlayedAt stub_game3 3) ''d1h5''" by code_simp
  have all: "map (map_option feedback)
        (r_timelineAnnotations
          (snd (beginGameReview stub_chess stub_sf_missed (Inr Map.empty) (fresh_reviewer stub_game3)))) =
      [None, Some Best, Some Blunder, Some Miss]"
    by code_simp
  show ?thesis
    using miss_rule[OF h1 h2 h3 h4 h5 h6 h7] h1 h5 h6 h7 all
    by (simp add: isMate_def)
qed

text \<open>
  C8, as stated, fails.  Before white's second move the top line shows a mate for white
  (\<open>Mate 2\<close>); after the move played, which is not the engine's, the top line shows a mate
  for black (\<open>Mate (-1)\<close>): it no longer shows a mate for the side that had it.  The Book
  and Best rules do not match, and the move is labelled Blunder, not Miss.
\<close>

theorem miss_rule_mate_for_other_side_counterexample:
  "stub_sf_mates (fen (stub_game3 ! 2)) 10 = Inr (stub_mate ''d1h5'' 2)
   \<and> stub_sf_mates (fen (stub_game3 ! 3)) 10 = Inr (stub_mate ''b8c6'' (- 1))
   \<and> spec_miss (Mate 2) (Mate (- 1))
   \<and> bookEntry Map.empty (movePlayedAt stub_game3 3) = None
   \<and> \<not> matchesBest (movePlayedAt stub_game3 3) ''d1h5''
   \<and> fst (beginGameReview stub_chess stub_sf_mates (Inr Map.empty) (fresh_reviewer stub_game3)) = Inr ()
   \<and> map_option feedback
        (getAnnotationAt
          (r_timelineAnnotations
            (snd (beginGameReview stub_chess stub_sf_mates (Inr Map.empty) (fresh_reviewer stub_game3))))
          3) = Some Blunder"
  by code_simp

section \<open>Supporting facts\<close>

text \<open>A \<open>loadFEN\<close> that the rules library rejects, issued while the cursor is on the main
  line, throws after the cursor and the main line were reset: the cursor is then off the
  main line with nothing under it.  The invariant above is stated for accepted FENs.\<close>

lemma loadFEN_rejected_state:
  "\<not> chess_accepts stub_chess ''not a fen''
   \<and> fst (loadFEN stub_chess ''not a fen'' (run stub_chess [LoadPGN ''1. e4 e5''])) = Inl InvalidFEN
   \<and> t_position (run stub_chess [LoadPGN ''1. e4 e5'', LoadFEN ''not a fen'']) =
        \<lparr>main = False, index = 0\<rparr>
   \<and> t_hypothetical (run stub_chess [LoadPGN ''1. e4 e5'', LoadFEN ''not a fen'']) = []
   \<and> getBoardState (run stub_chess [LoadPGN ''1. e4 e5'', LoadFEN ''not a fen'']) = None"
  by code_simp

text \<open>The decision list itself has no test for a forced move.  On a timeline that records
  no move for a position (one built from FENs alone, which \<open>loadPGN\<close> never produces) the
  Book and Best tests are skipped, and a move out of a position with one legal move falls to
  the delta rules like any other.\<close>

lemma unrecorded_move_falls_to_delta_rules:
  "is_forced stub_chess (corner_game ! 0)
   \<and> bookEntry Map.empty (movePlayedAt corner_game 1) = None
   \<and> \<not> matchesBest (movePlayedAt corner_game 1) ''h1g1''
   \<and> stub_sf (fen (corner_game ! 0)) 10 = Inr (stub_line ''h1g1'' 0)
   \<and> \<not> isMate (CentipawnAdvantage 0)
   \<and> fst (beginGameReview stub_chess stub_sf (Inr Map.empty) (fresh_reviewer corner_game)) = Inr ()
   \<and> map (map_option (\<lambda>a. (feedback a, deltaScore a)))
        (r_timelineAnnotations
          (snd (beginGameReview stub_chess stub_sf (Inr Map.empty) (fresh_reviewer corner_game)))) =
      [None, Some (Blunder, - 500)]"
  by code_simp

text \<open>The annotation of a move does not depend on the legal moves of any position.\<close>

lemma annotate_ignores_legal_moves:
  "annotate (c\<lparr>chess_moves := mv\<rparr>) openingBook timeline prev cur i =
   annotate c openingBook timeline prev cur i"
proof -
  have "chess_move (c\<lparr>chess_moves := mv\<rparr>) = chess_move c" by simp
  then show ?thesis by (simp only: annotate_def)
qed

text \<open>Below the first three rules the label is decided by the delta alone.\<close>

lemma delta_rules:
  assumes "firstContinuation (e_eval prev) = Some preTop"
      and "continuation preTop = best # rest"
      and "i - 1 < length timeline"
      and "chess_move c (fen (timeline ! (i - 1)))
             (slice 0 2 best) (slice 2 4 best) (Some (slice 4 5 best)) = Some (f, bm)"
      and "firstContinuation (e_eval cur) = Some postTop"
      and "bookEntry openingBook (movePlayedAt timeline i) = None"
      and "\<not> matchesBest (movePlayedAt timeline i) best"
      and "\<not> (isMate (score preTop) \<and> \<not> isMate (score postTop))"
  shows "\<exists>a. annotate c openingBook timeline prev cur i = Inr a
           \<and> feedback a =
               (if e_deltaScore cur \<ge> - 50 then Good
                else if e_deltaScore cur \<ge> - 200 then Dubious else Blunder)"
  using assms
  by (cases "isMate (score preTop)"; cases "isMate (score postTop)")
     (simp_all add: annotate_def Let_def GOOD_CP_LOSS_THRESHOLD_def BLUNDER_CP_LOSS_THRESHOLD_def)

text \<open>The two ratios on a store of the shape a completed review leaves: an empty slot for
  the starting position, then one annotation per move.\<close>

lemma numGoodMoves_acc:
  "numGoodMoves as n =
     n + length (filter (\<lambda>a. case a of Some an \<Rightarrow> isPositiveFeedback (feedback an) | None \<Rightarrow> False) as)"
  by (induction as arbitrary: n) (auto split: option.splits)

lemma computeAccuracy_completed_shape:
  "computeAccuracy (None # map Some xs) =
     Some (of_nat (length (filter (\<lambda>an. isPositiveFeedback (feedback an)) xs))
           / of_nat (length xs + 1))"
proof -
  have "filter (\<lambda>a. case a of Some an \<Rightarrow> isPositiveFeedback (feedback an) | None \<Rightarrow> False)
          (map Some xs) = map Some (filter (\<lambda>an. isPositiveFeedback (feedback an)) xs)"
    by (induction xs) auto
  then show ?thesis
    by (simp add: computeAccuracy_def numGoodMoves_acc)
qed

lemma numAnnotated_completed_shape: "numAnnotated (None # map Some xs) = length xs"
proof -
  have "filter (\<lambda>a. a \<noteq> None) (map Some xs) = map Some xs" by (induction xs) auto
  then show ?thesis by (simp add: numAnnotated_def)
qed

text \<open>Under the invariant there is always a current board state, so \<open>makeMove\<close> never
  reads \<open>push\<close> from \<open>undefined\<close>.\<close>

lemma current_defined:
  assumes "\<forall>op\<in>set ops. accepted c op"
  shows "getBoardState (run c ops) \<noteq> None"
  using inv_run[OF assms] by (auto simp: timeline_inv_def getBoardState_def split: if_splits)

end
